theory Spec2Isabelle
  imports Complex_Main "HOL-Library.Word"
begin

section \<open>The disjoint-set engine of \<^verbatim>\<open>src/cpplib/djset.cpp\<close>\<close>

subsection \<open>Data model\<close>

text \<open>
  What a call can end with besides a value. The class throws \<^verbatim>\<open>std::runtime_error\<close> in the
  two shape checks; \<^verbatim>\<open>new int[n]\<close> throws for a negative length; the pybind accessor
  \<^verbatim>\<open>mutable_unchecked<2>\<close> throws \<^verbatim>\<open>std::domain_error\<close> for a wrong number of dimensions.
  A subscript outside an allocated array is not an exception in C++: \<^verbatim>\<open>parent[x]\<close> is a raw
  pointer access with no check, so the model marks it as \<open>UndefinedBehaviour\<close>.
\<close>

datatype error =
    UndefinedBehaviour
  | RuntimeError string
  | DomainError
  | BadArrayNewLength

text \<open>
  The private fields of \<^verbatim>\<open>class DisjointSet\<close>. The three heap arrays are lists of C++
  \<^verbatim>\<open>int\<close>, modelled as unbounded integers (lemma \<open>reachable_values_bounded\<close> below shows that
  in reachable partitions the stored values stay in \<open>[0, n]\<close> with \<open>n < 2^31\<close>, so no addition of the
  class overflows);
  \<^verbatim>\<open>n\<close> and \<^verbatim>\<open>components\<close> are \<^verbatim>\<open>uint32_t\<close>. The field \<^verbatim>\<open>size\<close> is named \<open>sizes\<close> and
  \<^verbatim>\<open>n\<close> is named \<open>n_elems\<close>, the source names being taken in HOL.
\<close>

record DisjointSet =
  parent :: "int list"
  rank :: "int list"
  sizes :: "int list"
  n_elems :: "32 word"
  components :: "32 word"

text \<open>A numpy array as pybind hands it over: its shape and its elements in row-major order.\<close>

record 'a ndarray =
  shape :: "nat list"
  elems :: "'a list"

definition in_bounds :: "'a list \<Rightarrow> int \<Rightarrow> bool" where
  "in_bounds xs i \<longleftrightarrow> 0 \<le> i \<and> i < int (length xs)"

text \<open>Conversion of a \<^verbatim>\<open>uint32_t\<close> argument to the \<^verbatim>\<open>int\<close> parameter of \<^verbatim>\<open>find\<close> and \<^verbatim>\<open>unite\<close>.\<close>

definition int_of_u32 :: "32 word \<Rightarrow> int" where
  "int_of_u32 w = sint w"

subsection \<open>Union-find core\<close>

text \<open>\<^verbatim>\<open>DisjointSet(int n)\<close>, lines 11-21.\<close>

definition DisjointSet_n :: "int \<Rightarrow> error + DisjointSet" where
  "DisjointSet_n n =
     (if n < 0 then Inl BadArrayNewLength
      else Inr \<lparr>parent = map int [0..<nat n],
                rank = replicate (nat n) 0,
                sizes = replicate (nat n) 1,
                n_elems = word_of_int n,
                components = word_of_int n\<rparr>)"

text \<open>
  \<^verbatim>\<open>find\<close>, lines 133-138. The recursion follows parent pointers and need not end on an
  arbitrary array (a cycle), so not returning is the value \<open>None\<close>.
\<close>

partial_function (option) find :: "DisjointSet \<Rightarrow> int \<Rightarrow> (DisjointSet \<times> (error + int)) option" where
  "find s x =
     (if \<not> in_bounds (parent s) x then Some (s, Inl UndefinedBehaviour)
      else if parent s ! nat x \<noteq> x then
        Option.bind (find s (parent s ! nat x)) (\<lambda>(s', res).
          case res of
            Inl e \<Rightarrow> Some (s', Inl e)
          | Inr r \<Rightarrow> Some (s'\<lparr>parent := (parent s')[nat x := r]\<rparr>, Inr r))
      else Some (s, Inr (parent s ! nat x)))"

declare find.simps [code]

text \<open>
  \<^verbatim>\<open>unite\<close>, lines 140-160. The roots returned by \<^verbatim>\<open>find\<close> are subscripts inside \<^verbatim>\<open>parent\<close>;
  \<^verbatim>\<open>rank\<close> and \<^verbatim>\<open>size\<close> are allocated with the same length by every constructor.
\<close>

definition unite :: "DisjointSet \<Rightarrow> int \<Rightarrow> int \<Rightarrow> (DisjointSet \<times> (error + bool)) option" where
  "unite s x y =
     Option.bind (find s x) (\<lambda>(s1, res1).
       case res1 of
         Inl e \<Rightarrow> Some (s1, Inl e)
       | Inr rx \<Rightarrow>
           Option.bind (find s1 y) (\<lambda>(s2, res2).
             case res2 of
               Inl e \<Rightarrow> Some (s2, Inl e)
             | Inr ry \<Rightarrow>
                 if rx = ry then Some (s2, Inr False)
                 else
                   let s3 =
                     (if rank s2 ! nat rx < rank s2 ! nat ry then
                        s2\<lparr>parent := (parent s2)[nat rx := ry],
                           sizes := (sizes s2)[nat ry := sizes s2 ! nat ry + sizes s2 ! nat rx]\<rparr>
                      else if rank s2 ! nat rx > rank s2 ! nat ry then
                        s2\<lparr>parent := (parent s2)[nat ry := rx],
                           sizes := (sizes s2)[nat rx := sizes s2 ! nat rx + sizes s2 ! nat ry]\<rparr>
                      else
                        s2\<lparr>parent := (parent s2)[nat ry := rx],
                           sizes := (sizes s2)[nat rx := sizes s2 ! nat rx + sizes s2 ! nat ry],
                           rank := (rank s2)[nat rx := rank s2 ! nat rx + 1]\<rparr>)
                   in Some (s3\<lparr>components := components s3 - 1\<rparr>, Inr True)))"

subsection \<open>Query surface\<close>

text \<open>Lines 162-172.\<close>

definition get_component_rank :: "DisjointSet \<Rightarrow> int \<Rightarrow> (DisjointSet \<times> (error + int)) option" where
  "get_component_rank s x =
     Option.bind (find s x) (\<lambda>(s', res).
       case res of
         Inl e \<Rightarrow> Some (s', Inl e)
       | Inr r \<Rightarrow> Some (s', Inr (rank s' ! nat r)))"

definition get_component_size :: "DisjointSet \<Rightarrow> int \<Rightarrow> (DisjointSet \<times> (error + int)) option" where
  "get_component_size s x =
     Option.bind (find s x) (\<lambda>(s', res).
       case res of
         Inl e \<Rightarrow> Some (s', Inl e)
       | Inr r \<Rightarrow> Some (s', Inr (sizes s' ! nat r)))"

definition get_component_number :: "DisjointSet \<Rightarrow> int" where
  "get_component_number s = sint (components s)"

text \<open>
  The loop \<^verbatim>\<open>for (uint32_t i = 0; i < n; i++) ... find(i)\<close> shared by \<^verbatim>\<open>get_ancestors\<close> and
  \<^verbatim>\<open>get_unique_ancestors\<close> (lines 174-191), over the list of its indices.
\<close>

fun find_each :: "DisjointSet \<Rightarrow> nat list \<Rightarrow> (DisjointSet \<times> (error + int list)) option" where
  "find_each s [] = Some (s, Inr [])"
| "find_each s (i # is) =
     Option.bind (find s (int_of_u32 (of_nat i))) (\<lambda>(s', res).
       case res of
         Inl e \<Rightarrow> Some (s', Inl e)
       | Inr r \<Rightarrow>
           Option.bind (find_each s' is) (\<lambda>(s'', res').
             case res' of
               Inl e \<Rightarrow> Some (s'', Inl e)
             | Inr rs \<Rightarrow> Some (s'', Inr (r # rs))))"

definition get_ancestors :: "DisjointSet \<Rightarrow> (DisjointSet \<times> (error + int list)) option" where
  "get_ancestors s = find_each s [0..<unat (n_elems s)]"

text \<open>A \<^verbatim>\<open>std::set<int>\<close> read from \<^verbatim>\<open>begin()\<close> to \<^verbatim>\<open>end()\<close>: ascending, without duplicates.\<close>

definition get_unique_ancestors :: "DisjointSet \<Rightarrow> (DisjointSet \<times> (error + int list)) option" where
  "get_unique_ancestors s =
     Option.bind (find_each s [0..<unat (n_elems s)]) (\<lambda>(s', res).
       case res of
         Inl e \<Rightarrow> Some (s', Inl e)
       | Inr rs \<Rightarrow> Some (s', Inr (sort (remdups rs))))"

subsection \<open>Bulk edge ingestion\<close>

text \<open>The calls \<^verbatim>\<open>unite(a, b)\<close> of a loop, in order; the boolean results are discarded.\<close>

fun unite_each :: "DisjointSet \<Rightarrow> (int \<times> int) list \<Rightarrow> (DisjointSet \<times> (error + unit)) option" where
  "unite_each s [] = Some (s, Inr ())"
| "unite_each s ((a, b) # es) =
     Option.bind (unite s a b) (\<lambda>(s', res).
       case res of
         Inl e \<Rightarrow> Some (s', Inl e)
       | Inr _ \<Rightarrow> unite_each s' es)"

text \<open>\<^verbatim>\<open>add_edges\<close>, lines 113-124.\<close>

definition add_edges ::
  "DisjointSet \<Rightarrow> 32 word \<Rightarrow> 32 word ndarray \<Rightarrow> 32 word \<Rightarrow> (DisjointSet \<times> (error + unit)) option" where
  "add_edges s a b_array b_array_size =
     (if length (shape b_array) \<noteq> 1 \<or> shape b_array ! 0 \<noteq> unat b_array_size then
        Some (s, Inl (RuntimeError ''Input array must be 1-dimensional and match the specified size.''))
      else
        unite_each s
          (map (\<lambda>i. (int_of_u32 a, int_of_u32 (elems b_array ! i))) [0..<unat b_array_size]))"

subsection \<open>Float arithmetic\<close>

text \<open>
  The values of the C++ type \<^verbatim>\<open>float\<close> (IEEE 754 binary32): finite numbers, the two
  infinities and NaN. A finite float is \<open>Fin r\<close> for a real \<open>r\<close> that the rounding below
  leaves unchanged and that is below \<open>2^128\<close> in magnitude (\<open>rounded\<close>, further down); the
  operations return only such values. Zero carries no sign in the model: the builder
  subtracts, multiplies, adds and compares, and no result of these tells \<open>-0\<close> from \<open>+0\<close>.
\<close>

datatype binary32 = Fin real | PosInf | NegInf | NaN

text \<open>
  Rounding to nearest, ties to even. \<open>round_normal\<close> keeps 24 significant bits: the last
  place of a value in \<open>[2^e, 2^(e+1))\<close> is \<open>2^(e-23)\<close>. \<open>round_real\<close> adds the gradual
  underflow: below \<open>2^-126\<close> the spacing is \<open>2^-149\<close>. \<open>round32\<close> adds the overflow: a rounded
  magnitude of \<open>2^128\<close> or more is an infinity.
\<close>

definition round_half_even :: "real \<Rightarrow> int" where
  "round_half_even y =
     (let f = \<lfloor>y\<rfloor> in
      if y - of_int f < 1 / 2 then f
      else if 1 / 2 < y - of_int f then f + 1
      else if even f then f else f + 1)"

definition round_normal :: "real \<Rightarrow> real" where
  "round_normal x =
     (if x = 0 then 0
      else
        let e = \<lfloor>log 2 \<bar>x\<bar>\<rfloor>; ulp = 2 powi (e - 23)
        in of_int (round_half_even (x / ulp)) * ulp)"

definition round_real :: "real \<Rightarrow> real" where
  "round_real x =
     (if \<bar>x\<bar> < 2 powi (- 126) then of_int (round_half_even (x / 2 powi (- 149))) * 2 powi (- 149)
      else round_normal x)"

definition round32 :: "real \<Rightarrow> binary32" where
  "round32 x =
     (let r = round_real x in
      if 2 ^ 128 \<le> r then PosInf else if r \<le> - (2 ^ 128) then NegInf else Fin r)"

text \<open>
  The operations the builder uses. Each one rounds its exact result once to binary32
  (\<^verbatim>\<open>FLT_EVAL_METHOD\<close> 0, no fused multiply-add); the cases with an infinity or NaN are those
  of IEEE 754. A comparison with NaN is false.
\<close>

fun fsub :: "binary32 \<Rightarrow> binary32 \<Rightarrow> binary32" where
  "fsub NaN _ = NaN"
| "fsub _ NaN = NaN"
| "fsub (Fin a) (Fin b) = round32 (a - b)"
| "fsub PosInf PosInf = NaN"
| "fsub NegInf NegInf = NaN"
| "fsub PosInf _ = PosInf"
| "fsub NegInf _ = NegInf"
| "fsub _ PosInf = NegInf"
| "fsub _ NegInf = PosInf"

fun fadd :: "binary32 \<Rightarrow> binary32 \<Rightarrow> binary32" where
  "fadd NaN _ = NaN"
| "fadd _ NaN = NaN"
| "fadd (Fin a) (Fin b) = round32 (a + b)"
| "fadd PosInf NegInf = NaN"
| "fadd NegInf PosInf = NaN"
| "fadd PosInf _ = PosInf"
| "fadd NegInf _ = NegInf"
| "fadd _ PosInf = PosInf"
| "fadd _ NegInf = NegInf"

fun fmul :: "binary32 \<Rightarrow> binary32 \<Rightarrow> binary32" where
  "fmul NaN _ = NaN"
| "fmul _ NaN = NaN"
| "fmul (Fin a) (Fin b) = round32 (a * b)"
| "fmul PosInf PosInf = PosInf"
| "fmul NegInf NegInf = PosInf"
| "fmul PosInf NegInf = NegInf"
| "fmul NegInf PosInf = NegInf"
| "fmul PosInf (Fin b) = (if b = 0 then NaN else if 0 < b then PosInf else NegInf)"
| "fmul NegInf (Fin b) = (if b = 0 then NaN else if 0 < b then NegInf else PosInf)"
| "fmul (Fin a) PosInf = (if a = 0 then NaN else if 0 < a then PosInf else NegInf)"
| "fmul (Fin a) NegInf = (if a = 0 then NaN else if 0 < a then NegInf else PosInf)"

fun fle :: "binary32 \<Rightarrow> binary32 \<Rightarrow> bool" where
  "fle NaN _ = False"
| "fle _ NaN = False"
| "fle (Fin a) (Fin b) = (a \<le> b)"
| "fle NegInf _ = True"
| "fle _ PosInf = True"
| "fle PosInf _ = False"
| "fle _ NegInf = False"

fun fgt :: "binary32 \<Rightarrow> binary32 \<Rightarrow> bool" where
  "fgt NaN _ = False"
| "fgt _ NaN = False"
| "fgt (Fin a) (Fin b) = (a > b)"
| "fgt NegInf _ = False"
| "fgt _ PosInf = False"
| "fgt PosInf _ = True"
| "fgt _ NegInf = True"

subsection \<open>Spatial edge builder\<close>

text \<open>
  The element \<^verbatim>\<open>buf(i, k)\<close>, or \<^verbatim>\<open>ptr[i * cols + k]\<close> in the validating constructor, is
  \<open>buf ! (i * cols + k)\<close>; the index is computed on naturals, which is the \<^verbatim>\<open>uint32_t\<close>
  arithmetic of the source for arrays of fewer than \<open>2^32\<close> elements.
  The innermost loop, lines 46-54: \<open>ks\<close> are the dimensions still to add and \<open>d\<close> is
  the running \<^verbatim>\<open>dist\<close>.
\<close>

fun accumulate ::
  "binary32 list \<Rightarrow> nat \<Rightarrow> binary32 \<Rightarrow> nat \<Rightarrow> nat \<Rightarrow> nat list \<Rightarrow> binary32 \<Rightarrow> binary32" where
  "accumulate buf cols t i j [] d = d"
| "accumulate buf cols t i j (k # ks) d =
     (let diff = fsub (buf ! (i * cols + k)) (buf ! (j * cols + k));
          d' = fadd d (fmul diff diff)
      in if fgt d' (fmul t t) then d'
         else accumulate buf cols t i j ks d')"

text \<open>The test of lines 56-59 on the distance the inner loop leaves.\<close>

definition within_threshold :: "binary32 list \<Rightarrow> nat \<Rightarrow> binary32 \<Rightarrow> nat \<Rightarrow> nat \<Rightarrow> bool" where
  "within_threshold buf cols t i j \<longleftrightarrow>
     fle (accumulate buf cols t i j [0..<cols] (Fin 0)) (fmul t t)"

text \<open>
  The pairs \<open>(i, j)\<close> on which the two outer loops (lines 42-43) call \<^verbatim>\<open>unite\<close>, in order;
  \<open>close i j\<close> stands for the inner loop and the test of lines 44-57.
\<close>

definition united_pairs :: "(nat \<Rightarrow> nat \<Rightarrow> bool) \<Rightarrow> nat \<Rightarrow> (nat \<times> nat) list" where
  "united_pairs close rows =
     concat (map (\<lambda>i. map (\<lambda>j. (i, j)) (filter (close i) [Suc i..<rows])) [0..<rows])"

text \<open>Lines 29-40 (and 72-83): the fields after the initialising loop over \<^verbatim>\<open>uint32_t i\<close>.\<close>

definition singletons :: "32 word \<Rightarrow> DisjointSet" where
  "singletons rows =
     \<lparr>parent = map (\<lambda>i. int_of_u32 (of_nat i)) [0..<unat rows],
      rank = replicate (unat rows) 0,
      sizes = replicate (unat rows) 1,
      n_elems = rows,
      components = rows\<rparr>"

text \<open>Lines 42-61 (and 85-104): the clustering loops on a fresh partition.\<close>

definition cluster :: "(nat \<Rightarrow> nat \<Rightarrow> bool) \<Rightarrow> 32 word \<Rightarrow> (error + DisjointSet) option" where
  "cluster close rows =
     Option.bind
       (unite_each (singletons rows)
          (map (\<lambda>(i, j). (int_of_u32 (of_nat i), int_of_u32 (of_nat j)))
               (united_pairs close (unat rows))))
       (\<lambda>(s, res). case res of Inl e \<Rightarrow> Some (Inl e) | Inr _ \<Rightarrow> Some (Inr s))"

text \<open>\<^verbatim>\<open>DisjointSet(py::array_t<float> array, float unit_dist_threshold)\<close>, lines 23-62.\<close>

definition DisjointSet_array :: "binary32 ndarray \<Rightarrow> binary32 \<Rightarrow> (error + DisjointSet) option" where
  "DisjointSet_array array unit_dist_threshold =
     (if length (shape array) \<noteq> 2 then Some (Inl DomainError)
      else
        let rows = of_nat (shape array ! 0) :: 32 word;
            cols = of_nat (shape array ! 1) :: 32 word
        in cluster (within_threshold (elems array) (unat cols) unit_dist_threshold) rows)"

text \<open>
  \<^verbatim>\<open>DisjointSet(py::array_t<float> array, uint32_t rows, uint32_t cols, float unit_dist_threshold)\<close>,
  lines 64-105.
\<close>

definition DisjointSet_array_shape ::
  "binary32 ndarray \<Rightarrow> 32 word \<Rightarrow> 32 word \<Rightarrow> binary32 \<Rightarrow> (error + DisjointSet) option" where
  "DisjointSet_array_shape array rows cols unit_dist_threshold =
     (if length (shape array) \<noteq> 2 \<or> shape array ! 0 \<noteq> unat rows \<or> shape array ! 1 \<noteq> unat cols then
        Some (Inl (RuntimeError ''Input array must be 2-dimensional and match the specified shape.''))
      else cluster (within_threshold (elems array) (unat cols) unit_dist_threshold) rows)"

text \<open>
  The builder the early exit is compared with, as the specification words it: the squared
  distance is accumulated over all \<^verbatim>\<open>cols\<close> dimensions, then compared with \<open>t^2\<close>.
\<close>

fun full_distance ::
  "binary32 list \<Rightarrow> nat \<Rightarrow> nat \<Rightarrow> nat \<Rightarrow> nat list \<Rightarrow> binary32 \<Rightarrow> binary32" where
  "full_distance buf cols i j [] d = d"
| "full_distance buf cols i j (k # ks) d =
     (let diff = fsub (buf ! (i * cols + k)) (buf ! (j * cols + k))
      in full_distance buf cols i j ks (fadd d (fmul diff diff)))"

definition within_threshold_unpruned ::
  "binary32 list \<Rightarrow> nat \<Rightarrow> binary32 \<Rightarrow> nat \<Rightarrow> nat \<Rightarrow> bool" where
  "within_threshold_unpruned buf cols t i j \<longleftrightarrow>
     fle (full_distance buf cols i j [0..<cols] (Fin 0)) (fmul t t)"

definition DisjointSet_array_unpruned ::
  "binary32 ndarray \<Rightarrow> binary32 \<Rightarrow> (error + DisjointSet) option" where
  "DisjointSet_array_unpruned array unit_dist_threshold =
     (if length (shape array) \<noteq> 2 then Some (Inl DomainError)
      else
        let rows = of_nat (shape array ! 0) :: 32 word;
            cols = of_nat (shape array ! 1) :: 32 word
        in cluster (within_threshold_unpruned (elems array) (unat cols) unit_dist_threshold) rows)"

definition DisjointSet_array_shape_unpruned ::
  "binary32 ndarray \<Rightarrow> 32 word \<Rightarrow> 32 word \<Rightarrow> binary32 \<Rightarrow> (error + DisjointSet) option" where
  "DisjointSet_array_shape_unpruned array rows cols unit_dist_threshold =
     (if length (shape array) \<noteq> 2 \<or> shape array ! 0 \<noteq> unat rows \<or> shape array ! 1 \<noteq> unat cols then
        Some (Inl (RuntimeError ''Input array must be 2-dimensional and match the specified shape.''))
      else cluster (within_threshold_unpruned (elems array) (unat cols) unit_dist_threshold) rows)"

text \<open>
  Notions for the rounding: \<open>representable\<close> are the values of 24 significant bits of any
  exponent, \<open>on_grid\<close> those of binary32 without its upper bound (multiples of \<open>2^-149\<close> up
  to \<open>2^-126\<close>, then 24 significant bits), \<open>rounded\<close> the results an operation can leave.
\<close>

definition representable :: "real \<Rightarrow> bool" where
  "representable f \<longleftrightarrow>
     f = 0 \<or> (\<exists>m e. 2 ^ 23 \<le> \<bar>m :: int\<bar> \<and> \<bar>m\<bar> < 2 ^ 24 \<and> f = of_int m * 2 powi (e - 23))"

definition on_grid :: "real \<Rightarrow> bool" where
  "on_grid f \<longleftrightarrow>
     (\<exists>k :: int. \<bar>k\<bar> \<le> 2 ^ 23 \<and> f = of_int k * 2 powi (- 149)) \<or>
     (\<exists>m e. 2 ^ 23 \<le> \<bar>m :: int\<bar> \<and> \<bar>m\<bar> < 2 ^ 24 \<and> - 126 \<le> e \<and> f = of_int m * 2 powi (e - 23))"

fun rounded :: "binary32 \<Rightarrow> bool" where
  "rounded (Fin r) \<longleftrightarrow> round_real r = r \<and> \<bar>r\<bar> < 2 ^ 128"
| "rounded _ \<longleftrightarrow> True"



subsection \<open>Notions the properties are stated with\<close>

text \<open>
  \<open>root_of p x r\<close>: following \<^verbatim>\<open>parent\<close> pointers from \<open>x\<close> inside the array ends at \<open>r\<close>, an
  element that is its own parent. \<open>visited p x v\<close>: \<open>v\<close> is one of the nodes the recursion of
  \<^verbatim>\<open>find(x)\<close> is called on.
\<close>

inductive root_of :: "int list \<Rightarrow> int \<Rightarrow> int \<Rightarrow> bool" for p :: "int list" where
  root_of_self: "in_bounds p x \<Longrightarrow> p ! nat x = x \<Longrightarrow> root_of p x x"
| root_of_up: "in_bounds p x \<Longrightarrow> p ! nat x \<noteq> x \<Longrightarrow> root_of p (p ! nat x) r \<Longrightarrow> root_of p x r"

inductive visited :: "int list \<Rightarrow> int \<Rightarrow> int \<Rightarrow> bool" for p :: "int list" where
  visited_self: "in_bounds p x \<Longrightarrow> visited p x x"
| visited_up: "in_bounds p x \<Longrightarrow> p ! nat x \<noteq> x \<Longrightarrow> visited p (p ! nat x) v \<Longrightarrow> visited p x v"

text \<open>
  The shape of a partition between public operations: three arrays of one length, every
  parent pointer inside the array, and the rank strictly growing along every parent pointer
  (which excludes cycles other than the self-loop of a root).
\<close>

definition well_formed :: "DisjointSet \<Rightarrow> bool" where
  "well_formed s \<longleftrightarrow>
     length (rank s) = length (parent s) \<and> length (sizes s) = length (parent s) \<and>
     list_all (\<lambda>i. in_bounds (parent s) (parent s ! i) \<and>
                    (parent s ! i \<noteq> int i \<longrightarrow> rank s ! i < rank s ! nat (parent s ! i)))
              [0..<length (parent s)]"

definition roots :: "DisjointSet \<Rightarrow> int set" where
  "roots s = {r. in_bounds (parent s) r \<and> parent s ! nat r = r}"

definition component :: "DisjointSet \<Rightarrow> int \<Rightarrow> int set" where
  "component s r = {x. root_of (parent s) x r}"

text \<open>
  \<open>compressed s s'\<close>: \<open>s'\<close> differs from \<open>s\<close> at most by parent pointers moved to the root
  of their own tree, as calls of \<^verbatim>\<open>find\<close> do. \<open>attach s a b\<close> is the body of one merging
  branch of \<^verbatim>\<open>unite\<close> (lines 147-148 or 150-151, then line 158) for the root \<open>a\<close> put under
  the root \<open>b\<close>.
\<close>

definition compressed :: "DisjointSet \<Rightarrow> DisjointSet \<Rightarrow> bool" where
  "compressed s s' \<longleftrightarrow>
     rank s' = rank s \<and> sizes s' = sizes s \<and> n_elems s' = n_elems s \<and>
     components s' = components s \<and> length (parent s') = length (parent s) \<and>
     (\<forall>y r. root_of (parent s') y r \<longleftrightarrow> root_of (parent s) y r)"

definition attach :: "DisjointSet \<Rightarrow> int \<Rightarrow> int \<Rightarrow> DisjointSet" where
  "attach s a b =
     s\<lparr>parent := (parent s)[nat a := b],
       sizes := (sizes s)[nat b := sizes s ! nat b + sizes s ! nat a],
       components := components s - 1\<rparr>"

text \<open>
  The bookkeeping of a partition: \<^verbatim>\<open>n\<close> is the length of the arrays and fits a C++ \<^verbatim>\<open>int\<close>,
  \<^verbatim>\<open>components\<close> counts the roots, \<^verbatim>\<open>size[r]\<close> of a root counts the elements below it, every
  stored size is in \<open>[1, n]\<close>, and the rank of a root is non-negative and below its size.
\<close>

definition consistent :: "DisjointSet \<Rightarrow> bool" where
  "consistent s \<longleftrightarrow>
     unat (n_elems s) = length (parent s) \<and> length (parent s) < 2 ^ 31 \<and>
     unat (components s) = card (roots s) \<and>
     (\<forall>r \<in> roots s. sizes s ! nat r = int (card (component s r))) \<and>
     (\<forall>x. in_bounds (parent s) x \<longrightarrow>
        1 \<le> sizes s ! nat x \<and> sizes s ! nat x \<le> int (length (parent s)) \<and> 0 \<le> rank s ! nat x) \<and>
     (\<forall>r \<in> roots s. rank s ! nat r < sizes s ! nat r)"

text \<open>\<open>calls s s'\<close>: a sequence of calls of \<^verbatim>\<open>find\<close> and \<^verbatim>\<open>unite\<close> with indices in \<open>[0, n)\<close>.\<close>

inductive calls :: "DisjointSet \<Rightarrow> DisjointSet \<Rightarrow> bool" where
  calls_none: "calls s s"
| calls_find: "calls s s1 \<Longrightarrow> in_bounds (parent s1) x \<Longrightarrow> find s1 x = Some (s2, res)
     \<Longrightarrow> calls s s2"
| calls_unite: "calls s s1 \<Longrightarrow> in_bounds (parent s1) x \<Longrightarrow> in_bounds (parent s1) y
     \<Longrightarrow> unite s1 x y = Some (s2, res) \<Longrightarrow> calls s s2"

text \<open>
  \<open>unite_trace n k s\<close>: the partition \<open>s\<close> is reached from \<open>n\<close> singletons by calls of
  \<^verbatim>\<open>find\<close> and \<^verbatim>\<open>unite\<close> with indices in \<open>[0, n)\<close>, \<open>k\<close> of the \<^verbatim>\<open>unite\<close> calls having returned
  \<^verbatim>\<open>true\<close>.
\<close>

inductive unite_trace :: "nat \<Rightarrow> nat \<Rightarrow> DisjointSet \<Rightarrow> bool" where
  trace_new: "n < 2 ^ 31 \<Longrightarrow> DisjointSet_n (int n) = Inr s \<Longrightarrow> unite_trace n 0 s"
| trace_find: "unite_trace n k s \<Longrightarrow> in_bounds (parent s) x \<Longrightarrow> find s x = Some (s', res)
     \<Longrightarrow> unite_trace n k s'"
| trace_unite_true: "unite_trace n k s \<Longrightarrow> in_bounds (parent s) x \<Longrightarrow> in_bounds (parent s) y
     \<Longrightarrow> unite s x y = Some (s', Inr True) \<Longrightarrow> unite_trace n (Suc k) s'"
| trace_unite_false: "unite_trace n k s \<Longrightarrow> in_bounds (parent s) x \<Longrightarrow> in_bounds (parent s) y
     \<Longrightarrow> unite s x y = Some (s', Inr False) \<Longrightarrow> unite_trace n k s'"

text \<open>One call of a public operation with every index argument in \<open>[0, n)\<close>.\<close>

inductive public_step :: "DisjointSet \<Rightarrow> DisjointSet \<Rightarrow> bool" where
  step_find: "in_bounds (parent s) x \<Longrightarrow> find s x = Some (s', res) \<Longrightarrow> public_step s s'"
| step_unite: "in_bounds (parent s) x \<Longrightarrow> in_bounds (parent s) y \<Longrightarrow> unite s x y = Some (s', b)
     \<Longrightarrow> public_step s s'"
| step_add_edges: "in_bounds (parent s) (int_of_u32 a)
     \<Longrightarrow> \<forall>b \<in> set (elems b_array). in_bounds (parent s) (int_of_u32 b)
     \<Longrightarrow> length (elems b_array) = prod_list (shape b_array)
     \<Longrightarrow> add_edges s a b_array b_array_size = Some (s', u) \<Longrightarrow> public_step s s'"
| step_rank: "in_bounds (parent s) x \<Longrightarrow> get_component_rank s x = Some (s', res) \<Longrightarrow> public_step s s'"
| step_size: "in_bounds (parent s) x \<Longrightarrow> get_component_size s x = Some (s', res) \<Longrightarrow> public_step s s'"
| step_number: "get_component_number s = c \<Longrightarrow> public_step s s"
| step_ancestors: "get_ancestors s = Some (s', rs) \<Longrightarrow> public_step s s'"
| step_unique_ancestors: "get_unique_ancestors s = Some (s', rs) \<Longrightarrow> public_step s s'"

text \<open>
  The partitions reachable from a constructor by public operations. The element count is
  a C++ \<^verbatim>\<open>int\<close> in the first constructor; the array constructors store the row count in
  \<^verbatim>\<open>int\<close> arrays, so it is below \<open>2^31\<close> there too.
\<close>

inductive reachable :: "DisjointSet \<Rightarrow> bool" where
  reach_new: "n < 2 ^ 31 \<Longrightarrow> DisjointSet_n n = Inr s \<Longrightarrow> reachable s"
| reach_array: "shape array ! 0 < 2 ^ 31 \<Longrightarrow> DisjointSet_array array t = Some (Inr s)
     \<Longrightarrow> reachable s"
| reach_array_shape: "unat rows < 2 ^ 31
     \<Longrightarrow> DisjointSet_array_shape array rows cols t = Some (Inr s) \<Longrightarrow> reachable s"
| reach_step: "reachable s \<Longrightarrow> public_step s s' \<Longrightarrow> reachable s'"

section \<open>Properties\<close>

subsection \<open>Indices and roots\<close>

lemma in_bounds_nat: "in_bounds p x \<Longrightarrow> nat x < length p"
  by (auto simp: in_bounds_def)

lemma in_bounds_int [simp]: "in_bounds p (int i) \<longleftrightarrow> i < length p"
  by (auto simp: in_bounds_def)

lemma in_bounds_update [simp]: "in_bounds (p[i := v]) x = in_bounds p x"
  by (simp add: in_bounds_def)

lemma nat_eq_in_bounds: "in_bounds p x \<Longrightarrow> in_bounds p y \<Longrightarrow> nat x = nat y \<longleftrightarrow> x = y"
  by (auto simp: in_bounds_def)

lemma nth_update_int:
  "in_bounds p x \<Longrightarrow> in_bounds p y \<Longrightarrow> p[nat x := v] ! nat y = (if x = y then v else p ! nat y)"
  by (auto simp: in_bounds_def nth_list_update)

lemma root_of_in_bounds: "root_of p x r \<Longrightarrow> in_bounds p x"
  by (induction rule: root_of.induct) simp_all

lemma root_of_root: "root_of p x r \<Longrightarrow> in_bounds p r \<and> p ! nat r = r"
  by (induction rule: root_of.induct) simp_all

lemma root_of_unfold:
  "root_of p x r \<longleftrightarrow>
     in_bounds p x \<and> (if p ! nat x = x then r = x else root_of p (p ! nat x) r)"
  by (subst root_of.simps) auto

lemma visited_unfold:
  "visited p x v \<longleftrightarrow>
     in_bounds p x \<and> (v = x \<or> p ! nat x \<noteq> x \<and> visited p (p ! nat x) v)"
  by (subst visited.simps) auto

lemma root_of_fix: "in_bounds p r \<Longrightarrow> p ! nat r = r \<Longrightarrow> root_of p r r' \<longleftrightarrow> r' = r"
  by (subst root_of_unfold) simp

lemma root_of_unique: "root_of p x r \<Longrightarrow> root_of p x r' \<Longrightarrow> r' = r"
proof (induction arbitrary: r' rule: root_of.induct)
  case (root_of_self x)
  then show ?case by (simp add: root_of_fix)
next
  case (root_of_up x r)
  from root_of_up.prems root_of_up.hyps(1,2) have "root_of p (p ! nat x) r'"
    by (subst (asm) root_of_unfold) simp
  then show ?case by (rule root_of_up.IH)
qed



lemma visited_root_of: "visited p x v \<Longrightarrow> root_of p x r \<Longrightarrow> root_of p v r"
proof (induction rule: visited.induct)
  case (visited_self x)
  then show ?case by simp
next
  case (visited_up x v)
  from visited_up.prems visited_up.hyps(1,2) have "root_of p (p ! nat x) r"
    by (subst (asm) root_of_unfold) simp
  then show ?case by (rule visited_up.IH)
qed

text \<open>Compressing the path of one node keeps the root of every node.\<close>

lemma root_of_compress_fwd:
  assumes xr: "root_of p x r"
  shows "root_of (p[nat x := r]) y r' \<Longrightarrow> root_of p y r'"
proof (induction rule: root_of.induct)
  case (root_of_self y)
  then have yb: "in_bounds p y" by simp
  show ?case
  proof (cases "y = x")
    case True
    with root_of_self yb have "r = x"
      by (simp add: nth_update_int)
    with xr True show ?thesis by simp
  next
    case False
    with root_of_self yb root_of_in_bounds[OF xr] have "p ! nat y = y"
      by (simp add: nth_update_int)
    with yb show ?thesis by (rule root_of.root_of_self)
  qed
next
  case (root_of_up y r')
  then have yb: "in_bounds p y" by simp
  show ?case
  proof (cases "y = x")
    case True
    with root_of_up yb have "root_of p r r'"
      by (simp add: nth_update_int)
    with root_of_root[OF xr] have "r' = r" by (simp add: root_of_fix)
    with xr True show ?thesis by simp
  next
    case False
    with yb root_of_in_bounds[OF xr] have eq: "p[nat x := r] ! nat y = p ! nat y"
      by (simp add: nth_update_int)
    from root_of_up.hyps(2) eq have ne: "p ! nat y \<noteq> y" by simp
    from root_of_up.IH eq have "root_of p (p ! nat y) r'" by simp
    with yb ne show ?thesis by (rule root_of.root_of_up)
  qed
qed

lemma root_of_compress_bwd:
  assumes xr: "root_of p x r"
  shows "root_of p y r' \<Longrightarrow> root_of (p[nat x := r]) y r'"
proof (induction rule: root_of.induct)
  case (root_of_self y)
  then have yb: "in_bounds (p[nat x := r]) y" by simp
  have "p[nat x := r] ! nat y = y"
  proof (cases "y = x")
    case True
    with root_of_self xr have "r = x" by (simp add: root_of_fix)
    with root_of_self True show ?thesis by (simp add: nth_update_int)
  next
    case False
    with root_of_self root_of_in_bounds[OF xr] show ?thesis by (simp add: nth_update_int)
  qed
  with yb show ?case by (rule root_of.root_of_self)
next
  case (root_of_up y r')
  then have yb: "in_bounds (p[nat x := r]) y" by simp
  show ?case
  proof (cases "y = x")
    case True
    have yr': "root_of p y r'"
      using root_of_up.hyps by (rule root_of.root_of_up)
    with xr True have r': "r' = r" by (auto dest: root_of_unique)
    from root_of_up.hyps(1,2) True xr have rx: "r \<noteq> x"
      by (auto dest: root_of_root)
    have xb: "in_bounds p x" by (rule root_of_in_bounds[OF xr])
    from root_of_root[OF xr] xb rx have "p[nat x := r] ! nat r = r"
      by (simp add: nth_update_int)
    moreover from root_of_root[OF xr] have "in_bounds (p[nat x := r]) r" by simp
    ultimately have rr: "root_of (p[nat x := r]) r r" by (rule root_of.root_of_self[rotated])
    from xb have ux: "p[nat x := r] ! nat x = r" by (simp add: nth_update_int)
    from rx ux have ne: "p[nat x := r] ! nat x \<noteq> x" by simp
    from rr ux have "root_of (p[nat x := r]) (p[nat x := r] ! nat x) r" by simp
    with yb[unfolded True] ne have "root_of (p[nat x := r]) x r"
      by (rule root_of.root_of_up)
    with True r' show ?thesis by simp
  next
    case False
    with root_of_up.hyps(1) root_of_in_bounds[OF xr] have eq: "p[nat x := r] ! nat y = p ! nat y"
      by (simp add: nth_update_int)
    from root_of_up.hyps(2) eq have ne: "p[nat x := r] ! nat y \<noteq> y" by simp
    from root_of_up.IH eq have "root_of (p[nat x := r]) (p[nat x := r] ! nat y) r'" by simp
    with yb ne show ?thesis by (rule root_of.root_of_up)
  qed
qed

lemma root_of_compress:
  "root_of p x r \<Longrightarrow> root_of (p[nat x := r]) y r' \<longleftrightarrow> root_of p y r'"
  using root_of_compress_fwd root_of_compress_bwd by blast


subsection \<open>Well-formed partitions and the recursion of find\<close>

lemma well_formed_iff:
  "well_formed s \<longleftrightarrow>
     length (rank s) = length (parent s) \<and> length (sizes s) = length (parent s) \<and>
     (\<forall>x. in_bounds (parent s) x \<longrightarrow>
        in_bounds (parent s) (parent s ! nat x) \<and>
        (parent s ! nat x \<noteq> x \<longrightarrow> rank s ! nat x < rank s ! nat (parent s ! nat x)))"
proof -
  let ?P = "\<lambda>x. in_bounds (parent s) (parent s ! nat x) \<and>
        (parent s ! nat x \<noteq> x \<longrightarrow> rank s ! nat x < rank s ! nat (parent s ! nat x))"
  let ?Q = "\<lambda>i. in_bounds (parent s) (parent s ! i) \<and>
        (parent s ! i \<noteq> int i \<longrightarrow> rank s ! i < rank s ! nat (parent s ! i))"
  have "(\<forall>i \<in> {0..<length (parent s)}. ?Q i) \<longleftrightarrow> (\<forall>x. in_bounds (parent s) x \<longrightarrow> ?P x)"
  proof
    assume a: "\<forall>i \<in> {0..<length (parent s)}. ?Q i"
    show "\<forall>x. in_bounds (parent s) x \<longrightarrow> ?P x"
    proof (intro allI impI)
      fix x assume "in_bounds (parent s) x"
      then have "nat x \<in> {0..<length (parent s)}" "int (nat x) = x"
        by (auto simp: in_bounds_def)
      with a show "?P x" by metis
    qed
  next
    assume a: "\<forall>x. in_bounds (parent s) x \<longrightarrow> ?P x"
    show "\<forall>i \<in> {0..<length (parent s)}. ?Q i"
    proof
      fix i assume "i \<in> {0..<length (parent s)}"
      then have "in_bounds (parent s) (int i)" by simp
      with a have "?P (int i)" by blast
      then show "?Q i" by simp
    qed
  qed
  then show ?thesis
    unfolding well_formed_def list_all_iff by simp
qed

lemma well_formedD:
  assumes "well_formed s"
  shows "length (rank s) = length (parent s)" "length (sizes s) = length (parent s)"
    and "in_bounds (parent s) x \<Longrightarrow> in_bounds (parent s) (parent s ! nat x)"
    and "in_bounds (parent s) x \<Longrightarrow> parent s ! nat x \<noteq> x
           \<Longrightarrow> rank s ! nat x < rank s ! nat (parent s ! nat x)"
  using assms unfolding well_formed_iff by blast+

lemma finite_in_bounds: "finite {x. in_bounds p x}"
proof -
  have "{x. in_bounds p x} = {0..<int (length p)}"
    by (auto simp: in_bounds_def)
  then show ?thesis by simp
qed

lemma parent_induct [consumes 2, case_names step]:
  assumes wf: "well_formed s" and xb: "in_bounds (parent s) x"
    and step: "\<And>x. in_bounds (parent s) x \<Longrightarrow> (parent s ! nat x \<noteq> x \<Longrightarrow> P (parent s ! nat x)) \<Longrightarrow> P x"
  shows "P x"
proof -
  define B where "B = Max ((\<lambda>x. rank s ! nat x) ` {x. in_bounds (parent s) x})"
  have le: "rank s ! nat y \<le> B" if "in_bounds (parent s) y" for y
    unfolding B_def using that by (intro Max_ge) (simp_all add: finite_in_bounds)
  from xb show ?thesis
  proof (induction "nat (B - rank s ! nat x)" arbitrary: x rule: less_induct)
    case less
    show ?case
    proof (rule step[OF less.prems])
      assume ne: "parent s ! nat x \<noteq> x"
      have pb: "in_bounds (parent s) (parent s ! nat x)"
        by (rule well_formedD(3)[OF wf less.prems])
      have "rank s ! nat x < rank s ! nat (parent s ! nat x)"
        by (rule well_formedD(4)[OF wf less.prems ne])
      with le[OF pb] have "nat (B - rank s ! nat (parent s ! nat x)) < nat (B - rank s ! nat x)"
        by linarith
      then show "P (parent s ! nat x)" using pb by (rule less.hyps)
    qed
  qed
qed

lemma root_of_exists:
  assumes "well_formed s" "in_bounds (parent s) x"
  shows "\<exists>r. root_of (parent s) x r"
  using assms
proof (induction rule: parent_induct)
  case (step x)
  show ?case
  proof (cases "parent s ! nat x = x")
    case True
    with step(1) have "root_of (parent s) x x" by (rule root_of_self)
    then show ?thesis ..
  next
    case False
    with step(2) obtain r where "root_of (parent s) (parent s ! nat x) r" by blast
    with step(1) False have "root_of (parent s) x r" by (rule root_of_up)
    then show ?thesis ..
  qed
qed

lemma rank_below_root:
  assumes wf: "well_formed s"
  shows "root_of (parent s) x r \<Longrightarrow> x \<noteq> r \<Longrightarrow> rank s ! nat x < rank s ! nat r"
proof (induction rule: root_of.induct)
  case (root_of_self x)
  then show ?case by simp
next
  case (root_of_up x r)
  have lt: "rank s ! nat x < rank s ! nat (parent s ! nat x)"
    by (rule well_formedD(4)[OF wf root_of_up.hyps(1,2)])
  show ?case
  proof (cases "parent s ! nat x = r")
    case True
    with lt show ?thesis by simp
  next
    case False
    with root_of_up.IH lt show ?thesis by simp
  qed
qed

lemma find_spec:
  assumes wf: "well_formed s" and xb: "in_bounds (parent s) x"
  shows "\<exists>p' r. find s x = Some (s\<lparr>parent := p'\<rparr>, Inr r) \<and> root_of (parent s) x r \<and>
           length p' = length (parent s) \<and>
           (\<forall>y r'. root_of p' y r' \<longleftrightarrow> root_of (parent s) y r') \<and>
           (\<forall>y. in_bounds (parent s) y \<longrightarrow>
                 p' ! nat y = (if visited (parent s) x y then r else parent s ! nat y))"
  using wf xb
proof (induction rule: parent_induct)
  case (step x)
  let ?p = "parent s"
  show ?case
  proof (cases "?p ! nat x = x")
    case True
    from step(1) True have f: "find s x = Some (s\<lparr>parent := ?p\<rparr>, Inr x)"
      by (subst find.simps) simp
    from step(1) True have r: "root_of ?p x x" by (rule root_of_self)
    have v: "visited ?p x y \<longleftrightarrow> y = x" for y
      using step(1) True by (subst visited_unfold) simp
    have "\<forall>y. in_bounds ?p y \<longrightarrow> ?p ! nat y = (if visited ?p x y then x else ?p ! nat y)"
      using True by (simp add: v)
    with f r show ?thesis by blast
  next
    case False
    from step(2)[OF False] obtain p1 r where
      f1: "find s (?p ! nat x) = Some (s\<lparr>parent := p1\<rparr>, Inr r)" and
      r1: "root_of ?p (?p ! nat x) r" and
      l1: "length p1 = length ?p" and
      e1: "\<forall>y r'. root_of p1 y r' \<longleftrightarrow> root_of ?p y r'" and
      c1: "\<forall>y. in_bounds ?p y \<longrightarrow>
                 p1 ! nat y = (if visited ?p (?p ! nat x) y then r else ?p ! nat y)"
      by blast
    let ?p' = "p1[nat x := r]"
    from step(1) False f1 have f: "find s x = Some (s\<lparr>parent := ?p'\<rparr>, Inr r)"
      by (subst find.simps) simp
    from step(1) False r1 have r: "root_of ?p x r" by (rule root_of_up)
    with e1 have "root_of p1 x r" by simp
    then have "\<forall>y r'. root_of ?p' y r' \<longleftrightarrow> root_of p1 y r'"
      by (simp add: root_of_compress)
    with e1 have e: "\<forall>y r'. root_of ?p' y r' \<longleftrightarrow> root_of ?p y r'" by simp
    have v: "visited ?p x y \<longleftrightarrow> y = x \<or> visited ?p (?p ! nat x) y" for y
      using step(1) False by (subst visited_unfold) simp
    have xb1: "in_bounds p1 x" using step(1) l1 by (simp add: in_bounds_def)
    have c: "?p' ! nat y = (if visited ?p x y then r else ?p ! nat y)" if yb: "in_bounds ?p y" for y
    proof -
      from yb l1 have yb1: "in_bounds p1 y" by (simp add: in_bounds_def)
      from c1 yb have "p1 ! nat y = (if visited ?p (?p ! nat x) y then r else ?p ! nat y)" by simp
      then show ?thesis using xb1 yb1 by (simp add: nth_update_int v)
    qed
    from f r l1 e c show ?thesis by auto
  qed
qed

subsection \<open>What find and unite do to a well-formed partition\<close>

lemma root_of_self_iff: "root_of p r r \<longleftrightarrow> in_bounds p r \<and> p ! nat r = r"
  using root_of_root root_of_self by blast

lemma compressed_refl: "compressed s s"
  by (simp add: compressed_def)

lemma compressed_trans: "compressed s s1 \<Longrightarrow> compressed s1 s2 \<Longrightarrow> compressed s s2"
  by (simp add: compressed_def)

lemma compressed_in_bounds: "compressed s s' \<Longrightarrow> in_bounds (parent s') x \<longleftrightarrow> in_bounds (parent s) x"
  by (simp add: compressed_def in_bounds_def)

lemma compressed_roots: "compressed s s' \<Longrightarrow> roots s' = roots s"
  unfolding roots_def compressed_def root_of_self_iff[symmetric] by simp

lemma compressed_component: "compressed s s' \<Longrightarrow> component s' r = component s r"
  by (simp add: compressed_def component_def)

lemma find_props:
  assumes wf: "well_formed s" and xb: "in_bounds (parent s) x"
  obtains s' r where "find s x = Some (s', Inr r)" "root_of (parent s) x r"
    "compressed s s'" "well_formed s'"
    "\<And>y. in_bounds (parent s) y \<Longrightarrow>
       parent s' ! nat y = (if visited (parent s) x y then r else parent s ! nat y)"
proof -
  from find_spec[OF wf xb] obtain p' r where
    f: "find s x = Some (s\<lparr>parent := p'\<rparr>, Inr r)" and
    r: "root_of (parent s) x r" and
    l: "length p' = length (parent s)" and
    e: "\<forall>y r'. root_of p' y r' \<longleftrightarrow> root_of (parent s) y r'" and
    c: "\<forall>y. in_bounds (parent s) y \<longrightarrow>
             p' ! nat y = (if visited (parent s) x y then r else parent s ! nat y)"
    by blast
  let ?s' = "s\<lparr>parent := p'\<rparr>"
  have cmp: "compressed s ?s'"
    using l e by (simp add: compressed_def)
  have ib: "in_bounds p' y \<longleftrightarrow> in_bounds (parent s) y" for y
    using l by (simp add: in_bounds_def)
  have "well_formed ?s'"
    unfolding well_formed_iff
  proof (intro conjI allI impI)
    show "length (rank ?s') = length (parent ?s')" "length (sizes ?s') = length (parent ?s')"
      using well_formedD(1,2)[OF wf] l by simp_all
  next
    fix y assume "in_bounds (parent ?s') y"
    then have yb: "in_bounds (parent s) y" by (simp add: ib)
    show "in_bounds (parent ?s') (parent ?s' ! nat y)"
    proof (cases "visited (parent s) x y")
      case True
      with c yb have "p' ! nat y = r" by simp
      with root_of_root[OF r] show ?thesis by (simp add: ib)
    next
      case False
      with c yb have "p' ! nat y = parent s ! nat y" by simp
      with well_formedD(3)[OF wf yb] show ?thesis by (simp add: ib)
    qed
  next
    fix y assume "in_bounds (parent ?s') y" and ne: "parent ?s' ! nat y \<noteq> y"
    then have yb: "in_bounds (parent s) y" by (simp add: ib)
    show "rank ?s' ! nat y < rank ?s' ! nat (parent ?s' ! nat y)"
    proof (cases "visited (parent s) x y")
      case True
      with c yb have eq: "p' ! nat y = r" by simp
      from True r have "root_of (parent s) y r" by (rule visited_root_of)
      moreover from ne eq have "y \<noteq> r" by auto
      ultimately have "rank s ! nat y < rank s ! nat r" by (rule rank_below_root[OF wf])
      with eq show ?thesis by simp
    next
      case False
      with c yb have eq: "p' ! nat y = parent s ! nat y" by simp
      with ne have "parent s ! nat y \<noteq> y" by simp
      from well_formedD(4)[OF wf yb this] eq show ?thesis by simp
    qed
  qed
  with f r cmp c show thesis by (intro that[of ?s' r]) simp_all
qed

lemma unite_cases:
  assumes wf: "well_formed s" and xb: "in_bounds (parent s) x" and yb: "in_bounds (parent s) y"
  obtains s1 s2 rx ry where
    "find s x = Some (s1, Inr rx)" "find s1 y = Some (s2, Inr ry)"
    "root_of (parent s) x rx" "root_of (parent s) y ry" "compressed s s2" "well_formed s2"
    "unite s x y =
       (if rx = ry then Some (s2, Inr False)
        else Some (if rank s ! nat rx < rank s ! nat ry then attach s2 rx ry
                   else if rank s ! nat ry < rank s ! nat rx then attach s2 ry rx
                   else (attach s2 ry rx)\<lparr>rank := (rank s)[nat rx := rank s ! nat rx + 1]\<rparr>,
                   Inr True))"
proof -
  from find_props[OF wf xb] obtain s1 rx where
    f1: "find s x = Some (s1, Inr rx)" and r1: "root_of (parent s) x rx" and
    c1: "compressed s s1" and w1: "well_formed s1"
    by blast
  from yb c1 have yb1: "in_bounds (parent s1) y" by (simp add: compressed_in_bounds)
  from find_props[OF w1 yb1] obtain s2 ry where
    f2: "find s1 y = Some (s2, Inr ry)" and r2: "root_of (parent s1) y ry" and
    c2: "compressed s1 s2" and w2: "well_formed s2"
    by blast
  from r2 c1 have r2': "root_of (parent s) y ry" by (simp add: compressed_def)
  from c1 c2 have c: "compressed s s2" by (rule compressed_trans)
  then have rk: "rank s2 = rank s" by (simp add: compressed_def)
  have "unite s x y =
       (if rx = ry then Some (s2, Inr False)
        else Some (if rank s ! nat rx < rank s ! nat ry then attach s2 rx ry
                   else if rank s ! nat ry < rank s ! nat rx then attach s2 ry rx
                   else (attach s2 ry rx)\<lparr>rank := (rank s)[nat rx := rank s ! nat rx + 1]\<rparr>,
                   Inr True))"
    unfolding unite_def by (simp add: f1 f2 rk attach_def Let_def)
  with f1 f2 r1 r2' c w2 show thesis by (rule that)
qed

subsection \<open>find and unite on a well-formed partition\<close>

lemma find_root_unique:
  assumes "well_formed s" "in_bounds (parent s) x" "find s x = Some (s', Inr r)"
  shows "root_of (parent s) x r"
  using find_props[OF assms(1,2)] assms(3) by auto



text \<open>
  C4. For \<open>x\<close>, \<open>y\<close> in \<open>[0, n)\<close> of a well-formed partition on which \<^verbatim>\<open>find(x)\<close> and \<^verbatim>\<open>find(y)\<close>
  return the same root, \<^verbatim>\<open>unite(x, y)\<close> returns \<^verbatim>\<open>false\<close> and leaves \<^verbatim>\<open>components\<close>, the whole
  \<^verbatim>\<open>size\<close> array and the whole \<^verbatim>\<open>rank\<close> array as they were.
\<close>

theorem unite_same_root_noop:
  assumes "well_formed s" and "in_bounds (parent s) x" and "in_bounds (parent s) y"
    and "find s x = Some (sx, Inr r)" and "find s y = Some (sy, Inr r)"
  shows "\<exists>s'. unite s x y = Some (s', Inr False) \<and>
           components s' = components s \<and> sizes s' = sizes s \<and> rank s' = rank s"
proof -
  have rx: "root_of (parent s) x r" and ry: "root_of (parent s) y r"
    using assms by (auto intro: find_root_unique)
  from unite_cases[OF assms(1-3)] obtain s2 rx' ry' where
    "root_of (parent s) x rx'" "root_of (parent s) y ry'" and c: "compressed s s2" and
    u: "unite s x y =
       (if rx' = ry' then Some (s2, Inr False)
        else Some (if rank s ! nat rx' < rank s ! nat ry' then attach s2 rx' ry'
                   else if rank s ! nat ry' < rank s ! nat rx' then attach s2 ry' rx'
                   else (attach s2 ry' rx')\<lparr>rank := (rank s)[nat rx' := rank s ! nat rx' + 1]\<rparr>,
                   Inr True))"
    by blast
  with rx ry have "rx' = r" "ry' = r" by (auto dest: root_of_unique)
  with u have "unite s x y = Some (s2, Inr False)" by simp
  with c show ?thesis by (simp add: compressed_def)
qed

theorem unite_same_root_noop_witness:
  "well_formed \<lparr>parent = [0, 0, 0, 2], rank = [2, 0, 1, 0], sizes = [4, 1, 2, 1],
                 n_elems = 4, components = 1\<rparr> \<and>
   in_bounds [0, 0, 0, 2 :: int] 3 \<and> in_bounds [0, 0, 0, 2 :: int] 1 \<and>
   (\<exists>s'. unite \<lparr>parent = [0, 0, 0, 2], rank = [2, 0, 1, 0], sizes = [4, 1, 2, 1],
                 n_elems = 4, components = 1\<rparr> 3 1 = Some (s', Inr False) \<and>
      components s' = 1 \<and> sizes s' = [4, 1, 2, 1] \<and> rank s' = [2, 0, 1, 0])"
  using unite_same_root_noop
    [of "\<lparr>parent = [0, 0, 0, 2], rank = [2, 0, 1, 0], sizes = [4, 1, 2, 1],
          n_elems = 4, components = 1\<rparr>" 3 1
        "\<lparr>parent = [0, 0, 0, 0], rank = [2, 0, 1, 0], sizes = [4, 1, 2, 1],
          n_elems = 4, components = 1\<rparr>" 0
        "\<lparr>parent = [0, 0, 0, 2], rank = [2, 0, 1, 0], sizes = [4, 1, 2, 1],
          n_elems = 4, components = 1\<rparr>"]
  by (simp add: well_formed_def in_bounds_def find.simps)

text \<open>
  C3. For \<open>x\<close>, \<open>y\<close> in \<open>[0, n)\<close> of a well-formed partition on which \<^verbatim>\<open>find(x)\<close> and \<^verbatim>\<open>find(y)\<close>
  return different roots \<open>rx\<close> and \<open>ry\<close>, \<^verbatim>\<open>unite(x, y)\<close> returns \<^verbatim>\<open>true\<close> and decrements
  \<^verbatim>\<open>components\<close>; the root of strictly smaller rank gets the other root as parent (ranks
  unchanged); on a rank tie \<open>ry\<close> gets the parent \<open>rx\<close> and the rank of \<open>rx\<close> grows by one; in
  each case the surviving root stays a root and its size becomes the sum of the two sizes.
\<close>

theorem unite_by_rank:
  assumes "well_formed s" and "in_bounds (parent s) x" and "in_bounds (parent s) y"
    and "find s x = Some (sx, Inr rx)" and "find s y = Some (sy, Inr ry)" and "rx \<noteq> ry"
  shows "\<exists>s'. unite s x y = Some (s', Inr True) \<and>
           components s' = components s - 1 \<and>
           (rank s ! nat rx < rank s ! nat ry \<longrightarrow>
              parent s' ! nat rx = ry \<and> parent s' ! nat ry = ry \<and> rank s' = rank s \<and>
              sizes s' ! nat ry = sizes s ! nat rx + sizes s ! nat ry) \<and>
           (rank s ! nat ry < rank s ! nat rx \<longrightarrow>
              parent s' ! nat ry = rx \<and> parent s' ! nat rx = rx \<and> rank s' = rank s \<and>
              sizes s' ! nat rx = sizes s ! nat rx + sizes s ! nat ry) \<and>
           (rank s ! nat rx = rank s ! nat ry \<longrightarrow>
              parent s' ! nat ry = rx \<and> parent s' ! nat rx = rx \<and>
              rank s' = (rank s)[nat rx := rank s ! nat rx + 1] \<and>
              sizes s' ! nat rx = sizes s ! nat rx + sizes s ! nat ry)"
proof -
  have rx: "root_of (parent s) x rx" and ry: "root_of (parent s) y ry"
    using assms by (auto intro: find_root_unique)
  from unite_cases[OF assms(1-3)] obtain s2 rx' ry' where
    "root_of (parent s) x rx'" "root_of (parent s) y ry'" and c: "compressed s s2" and
    u: "unite s x y =
       (if rx' = ry' then Some (s2, Inr False)
        else Some (if rank s ! nat rx' < rank s ! nat ry' then attach s2 rx' ry'
                   else if rank s ! nat ry' < rank s ! nat rx' then attach s2 ry' rx'
                   else (attach s2 ry' rx')\<lparr>rank := (rank s)[nat rx' := rank s ! nat rx' + 1]\<rparr>,
                   Inr True))"
    by blast
  with rx ry have "rx' = rx" "ry' = ry" by (auto dest: root_of_unique)
  with u assms(6) have u': "unite s x y =
       Some (if rank s ! nat rx < rank s ! nat ry then attach s2 rx ry
                   else if rank s ! nat ry < rank s ! nat rx then attach s2 ry rx
                   else (attach s2 ry rx)\<lparr>rank := (rank s)[nat rx := rank s ! nat rx + 1]\<rparr>,
                   Inr True)" by simp
  from c have eqs: "rank s2 = rank s" "sizes s2 = sizes s" "components s2 = components s"
    "length (parent s2) = length (parent s)"
    by (simp_all add: compressed_def)
  from c rx ry have "root_of (parent s2) x rx" "root_of (parent s2) y ry"
    by (simp_all add: compressed_def)
  then have b: "in_bounds (parent s2) rx" "in_bounds (parent s2) ry"
    and fx: "parent s2 ! nat rx = rx" "parent s2 ! nat ry = ry"
    by (auto dest: root_of_root)
  from b eqs well_formedD(2)[OF assms(1)] have bs: "in_bounds (sizes s) rx" "in_bounds (sizes s) ry"
    by (simp_all add: in_bounds_def)
  show ?thesis
    unfolding u' using assms(6) b bs fx
    by (simp add: attach_def eqs nth_update_int add.commute)
qed

theorem unite_by_rank_witness:
  "well_formed \<lparr>parent = [0, 0, 2, 2], rank = [1, 0, 1, 0], sizes = [2, 1, 2, 1],
                 n_elems = 4, components = 2\<rparr> \<and>
   in_bounds [0, 0, 2, 2 :: int] 1 \<and> in_bounds [0, 0, 2, 2 :: int] 3 \<and> (0 :: int) \<noteq> 2 \<and>
   (\<exists>s'. unite \<lparr>parent = [0, 0, 2, 2], rank = [1, 0, 1, 0], sizes = [2, 1, 2, 1],
                 n_elems = 4, components = 2\<rparr> 1 3 = Some (s', Inr True) \<and>
      components s' = 1 \<and> parent s' ! 2 = 0 \<and> parent s' ! 0 = 0 \<and>
      rank s' = [2, 0, 1, 0] \<and> sizes s' ! 0 = 4)"
  using unite_by_rank
    [of "\<lparr>parent = [0, 0, 2, 2], rank = [1, 0, 1, 0], sizes = [2, 1, 2, 1],
          n_elems = 4, components = 2\<rparr>" 1 3
        "\<lparr>parent = [0, 0, 2, 2], rank = [1, 0, 1, 0], sizes = [2, 1, 2, 1],
          n_elems = 4, components = 2\<rparr>" 0
        "\<lparr>parent = [0, 0, 2, 2], rank = [1, 0, 1, 0], sizes = [2, 1, 2, 1],
          n_elems = 4, components = 2\<rparr>" 2]
  by (simp add: well_formed_def in_bounds_def find.simps)

subsection \<open>Putting one root under another\<close>

lemma root_of_attach_fwd:
  assumes a: "root_of p a a" and b: "root_of p b b" and ne: "a \<noteq> b"
  shows "root_of (p[nat a := b]) x r \<Longrightarrow> (root_of p x r \<and> r \<noteq> a) \<or> (root_of p x a \<and> r = b)"
proof (induction rule: root_of.induct)
  case (root_of_self x)
  then have xb: "in_bounds p x" by simp
  have ab: "in_bounds p a" by (rule root_of_in_bounds[OF a])
  from root_of_self ne ab xb have "x \<noteq> a" by (auto simp: nth_update_int)
  with root_of_self ab xb have "p ! nat x = x" by (simp add: nth_update_int)
  with xb have "root_of p x x" by (rule root_of.root_of_self)
  with \<open>x \<noteq> a\<close> show ?case by simp
next
  case (root_of_up x r)
  then have xb: "in_bounds p x" by simp
  have ab: "in_bounds p a" by (rule root_of_in_bounds[OF a])
  show ?case
  proof (cases "x = a")
    case True
    with ab have "p[nat a := b] ! nat x = b" by (simp add: nth_update_int)
    with root_of_up.IH have "(root_of p b r \<and> r \<noteq> a) \<or> (root_of p b a \<and> r = b)" by simp
    with root_of_root[OF b] ne have "r = b" by (auto simp: root_of_fix)
    with a True show ?thesis by simp
  next
    case False
    with ab xb have eq: "p[nat a := b] ! nat x = p ! nat x" by (simp add: nth_update_int)
    with root_of_up.hyps(2) have nx: "p ! nat x \<noteq> x" by simp
    from root_of_up.IH eq
    have "(root_of p (p ! nat x) r \<and> r \<noteq> a) \<or> (root_of p (p ! nat x) a \<and> r = b)" by simp
    then show ?thesis
    proof
      assume h: "root_of p (p ! nat x) r \<and> r \<noteq> a"
      then have "root_of p (p ! nat x) r" ..
      with xb nx have "root_of p x r" by (rule root_of.root_of_up)
      with h show ?thesis by simp
    next
      assume h: "root_of p (p ! nat x) a \<and> r = b"
      then have "root_of p (p ! nat x) a" ..
      with xb nx have "root_of p x a" by (rule root_of.root_of_up)
      with h show ?thesis by simp
    qed
  qed
qed

lemma root_of_attach_other:
  assumes a: "root_of p a a"
  shows "root_of p x r \<Longrightarrow> r \<noteq> a \<Longrightarrow> root_of (p[nat a := b]) x r"
proof (induction rule: root_of.induct)
  case (root_of_self x)
  have ab: "in_bounds p a" by (rule root_of_in_bounds[OF a])
  from root_of_self ab have "p[nat a := b] ! nat x = x" by (simp add: nth_update_int)
  moreover from root_of_self have "in_bounds (p[nat a := b]) x" by simp
  ultimately show ?case by (rule root_of.root_of_self[rotated])
next
  case (root_of_up x r)
  have ab: "in_bounds p a" by (rule root_of_in_bounds[OF a])
  from root_of_up.hyps(2) root_of_root[OF a] have "x \<noteq> a" by auto
  with ab root_of_up.hyps(1) have eq: "p[nat a := b] ! nat x = p ! nat x"
    by (simp add: nth_update_int)
  from root_of_up.hyps(1) have xb: "in_bounds (p[nat a := b]) x" by simp
  from root_of_up.hyps(2) eq have nx: "p[nat a := b] ! nat x \<noteq> x" by simp
  from root_of_up.IH[OF root_of_up.prems] eq
  have "root_of (p[nat a := b]) (p[nat a := b] ! nat x) r" by simp
  with xb nx show ?case by (rule root_of.root_of_up)
qed

lemma root_of_attach_moved:
  assumes a: "root_of p a a" and b: "root_of p b b" and ne: "a \<noteq> b"
  shows "root_of p x r \<Longrightarrow> r = a \<Longrightarrow> root_of (p[nat a := b]) x b"
proof (induction rule: root_of.induct)
  case (root_of_self x)
  have ab: "in_bounds p a" by (rule root_of_in_bounds[OF a])
  from b ne have bb: "root_of (p[nat a := b]) b b"
    using root_of_attach_other[OF a b, of b] by simp
  from ab have eq: "p[nat a := b] ! nat a = b" by (simp add: nth_update_int)
  from ab have xb: "in_bounds (p[nat a := b]) a" by simp
  from eq ne have nx: "p[nat a := b] ! nat a \<noteq> a" by simp
  from bb eq have "root_of (p[nat a := b]) (p[nat a := b] ! nat a) b" by simp
  with xb nx have "root_of (p[nat a := b]) a b" by (rule root_of.root_of_up)
  with root_of_self show ?case by simp
next
  case (root_of_up x r)
  have ab: "in_bounds p a" by (rule root_of_in_bounds[OF a])
  from root_of_up.hyps(2) root_of_root[OF a] have "x \<noteq> a" by auto
  with ab root_of_up.hyps(1) have eq: "p[nat a := b] ! nat x = p ! nat x"
    by (simp add: nth_update_int)
  from root_of_up.hyps(1) have xb: "in_bounds (p[nat a := b]) x" by simp
  from root_of_up.hyps(2) eq have nx: "p[nat a := b] ! nat x \<noteq> x" by simp
  from root_of_up.IH[OF root_of_up.prems] eq
  have "root_of (p[nat a := b]) (p[nat a := b] ! nat x) b" by simp
  with xb nx show ?case by (rule root_of.root_of_up)
qed

lemma root_of_attach:
  assumes "root_of p a a" and "root_of p b b" and "a \<noteq> b"
  shows "root_of (p[nat a := b]) x r \<longleftrightarrow> (root_of p x r \<and> r \<noteq> a) \<or> (root_of p x a \<and> r = b)"
  using root_of_attach_fwd[OF assms] root_of_attach_other[OF assms(1)]
    root_of_attach_moved[OF assms] by blast

lemma in_roots: "r \<in> roots s \<longleftrightarrow> root_of (parent s) r r"
  by (simp add: roots_def root_of_self_iff)

lemma finite_roots: "finite (roots s)"
  by (rule finite_subset[OF _ finite_in_bounds[of "parent s"]]) (auto simp: roots_def)

lemma finite_component: "finite (component s r)"
  by (rule finite_subset[OF _ finite_in_bounds[of "parent s"]])
     (auto simp: component_def dest: root_of_in_bounds)

lemma component_disjoint: "r \<noteq> r' \<Longrightarrow> component s r \<inter> component s r' = {}"
  by (auto simp: component_def dest: root_of_unique)

lemma card_in_bounds: "card {x. in_bounds p x} = length p"
proof -
  have "{x. in_bounds p x} = {0..<int (length p)}"
    by (auto simp: in_bounds_def)
  then show ?thesis by simp
qed

lemma card_component_le: "card (component s r) \<le> length (parent s)"
proof -
  have "component s r \<subseteq> {x. in_bounds (parent s) x}"
    by (auto simp: component_def dest: root_of_in_bounds)
  then have "card (component s r) \<le> card {x. in_bounds (parent s) x}"
    by (intro card_mono finite_in_bounds)
  then show ?thesis by (simp add: card_in_bounds)
qed

lemma attach_fields:
  "parent (attach s a b) = (parent s)[nat a := b]"
  "sizes (attach s a b) = (sizes s)[nat b := sizes s ! nat b + sizes s ! nat a]"
  "rank (attach s a b) = rank s"
  "n_elems (attach s a b) = n_elems s"
  "components (attach s a b) = components s - 1"
  by (simp_all add: attach_def)

lemma link_roots:
  assumes a: "a \<in> roots s" and b: "b \<in> roots s" and ne: "a \<noteq> b"
    and p: "parent s' = (parent s)[nat a := b]"
  shows "roots s' = roots s - {a}"
    and "component s' b = component s a \<union> component s b"
    and "r \<noteq> a \<Longrightarrow> r \<noteq> b \<Longrightarrow> component s' r = component s r"
proof -
  from a b have ra: "root_of (parent s) a a" and rb: "root_of (parent s) b b"
    by (simp_all add: in_roots)
  note att = root_of_attach[OF ra rb ne]
  show "roots s' = roots s - {a}"
  proof (rule set_eqI)
    fix r
    have "r \<in> roots s' \<longleftrightarrow> (root_of (parent s) r r \<and> r \<noteq> a) \<or> (root_of (parent s) r a \<and> r = b)"
      by (simp add: in_roots p att)
    also have "\<dots> \<longleftrightarrow> root_of (parent s) r r \<and> r \<noteq> a"
      using rb ne by (auto dest: root_of_unique)
    finally show "r \<in> roots s' \<longleftrightarrow> r \<in> roots s - {a}" by (simp add: in_roots)
  qed
  show "component s' b = component s a \<union> component s b"
    using ne by (auto simp: component_def p att)
  show "component s' r = component s r" if "r \<noteq> a" "r \<noteq> b"
    using that by (auto simp: component_def p att)
qed

lemma link_well_formed:
  assumes wf: "well_formed s" and a: "a \<in> roots s" and b: "b \<in> roots s" and ne: "a \<noteq> b"
    and rk: "rank s ! nat a < rank s ! nat b \<and> rk' = rank s \<or>
             rank s ! nat a = rank s ! nat b \<and> rk' = (rank s)[nat b := rank s ! nat b + 1]"
  shows "well_formed ((attach s a b)\<lparr>rank := rk'\<rparr>)"
proof -
  let ?s' = "(attach s a b)\<lparr>rank := rk'\<rparr>"
  let ?p = "parent s"
  from a b have ab: "in_bounds ?p a" and bb: "in_bounds ?p b"
    and pa: "?p ! nat a = a" and pb: "?p ! nat b = b"
    by (simp_all add: roots_def)
  have ibr: "in_bounds (rank s) x \<longleftrightarrow> in_bounds ?p x" for x
    using well_formedD(1)[OF wf] by (simp add: in_bounds_def)
  have len: "length rk' = length (rank s)" using rk by auto
  have rk_ge: "rank s ! nat x \<le> rk' ! nat x" if "in_bounds ?p x" for x
    using rk that bb by (auto simp: nth_update_int ibr)
  have rk_eq: "rk' ! nat x = rank s ! nat x" if "in_bounds ?p x" "x \<noteq> b" for x
    using rk that bb by (auto simp: nth_update_int ibr)
  have rk_ab: "rk' ! nat a < rk' ! nat b"
    using rk ne ab bb by (auto simp: nth_update_int ibr)
  have q: "parent ?s' ! nat y = (if y = a then b else ?p ! nat y)" if "in_bounds ?p y" for y
    using that ab by (auto simp: attach_fields nth_update_int)
  show ?thesis
    unfolding well_formed_iff
  proof (intro conjI allI impI)
    show "length (rank ?s') = length (parent ?s')" "length (sizes ?s') = length (parent ?s')"
      using well_formedD(1,2)[OF wf] len by (simp_all add: attach_fields)
  next
    fix y assume "in_bounds (parent ?s') y"
    then have yb: "in_bounds ?p y" by (simp add: attach_fields)
    from q[OF yb] bb well_formedD(3)[OF wf yb]
    show "in_bounds (parent ?s') (parent ?s' ! nat y)"
      by (simp add: attach_fields)
  next
    fix y assume "in_bounds (parent ?s') y" and n: "parent ?s' ! nat y \<noteq> y"
    then have yb: "in_bounds ?p y" by (simp add: attach_fields)
    show "rank ?s' ! nat y < rank ?s' ! nat (parent ?s' ! nat y)"
    proof (cases "y = a")
      case True
      with q[OF yb] rk_ab show ?thesis by simp
    next
      case False
      with q[OF yb] have e: "parent ?s' ! nat y = ?p ! nat y" by simp
      with n have ny: "?p ! nat y \<noteq> y" by simp
      with pb have "y \<noteq> b" by auto
      have "rank s ! nat y < rank s ! nat (?p ! nat y)"
        by (rule well_formedD(4)[OF wf yb ny])
      also have "\<dots> \<le> rk' ! nat (?p ! nat y)"
        by (rule rk_ge[OF well_formedD(3)[OF wf yb]])
      finally show ?thesis using e rk_eq[OF yb \<open>y \<noteq> b\<close>] by simp
    qed
  qed
qed

lemma link_consistent:
  assumes wf: "well_formed s" and co: "consistent s"
    and a: "a \<in> roots s" and b: "b \<in> roots s" and ne: "a \<noteq> b"
    and rk: "rank s ! nat a < rank s ! nat b \<and> rk' = rank s \<or>
             rank s ! nat a = rank s ! nat b \<and> rk' = (rank s)[nat b := rank s ! nat b + 1]"
  shows "consistent ((attach s a b)\<lparr>rank := rk'\<rparr>)"
proof -
  let ?s' = "(attach s a b)\<lparr>rank := rk'\<rparr>"
  let ?p = "parent s"
  have p': "parent ?s' = ?p[nat a := b]" by (simp add: attach_fields)
  note lr = link_roots[OF a b ne p']
  from a b have ab: "in_bounds ?p a" and bb: "in_bounds ?p b"
    by (simp_all add: roots_def)
  have ibr: "in_bounds (rank s) x \<longleftrightarrow> in_bounds ?p x" for x
    using well_formedD(1)[OF wf] by (simp add: in_bounds_def)
  have ibs: "in_bounds (sizes s) x \<longleftrightarrow> in_bounds ?p x" for x
    using well_formedD(2)[OF wf] by (simp add: in_bounds_def)
  from co have n: "unat (n_elems s) = length ?p" and n31: "length ?p < 2 ^ 31"
    and cc: "unat (components s) = card (roots s)"
    and sz: "\<And>r. r \<in> roots s \<Longrightarrow> sizes s ! nat r = int (card (component s r))"
    and bd: "\<And>x. in_bounds ?p x \<Longrightarrow>
        1 \<le> sizes s ! nat x \<and> sizes s ! nat x \<le> int (length ?p) \<and> 0 \<le> rank s ! nat x"
    and rs: "\<And>r. r \<in> roots s \<Longrightarrow> rank s ! nat r < sizes s ! nat r"
    unfolding consistent_def by blast+
  have s': "sizes ?s' ! nat x = (if x = b then sizes s ! nat b + sizes s ! nat a else sizes s ! nat x)"
    if "in_bounds ?p x" for x
    using that bb by (auto simp: attach_fields nth_update_int ibs)
  have r': "rank ?s' ! nat x =
      (if x = b \<and> rank s ! nat a = rank s ! nat b then rank s ! nat b + 1 else rank s ! nat x)"
    if "in_bounds ?p x" for x
    using that bb rk by (auto simp: nth_update_int ibr)
  have card_b: "int (card (component ?s' b)) = sizes s ! nat b + sizes s ! nat a"
  proof -
    have "card (component s a \<union> component s b) = card (component s a) + card (component s b)"
      by (intro card_Un_disjoint finite_component component_disjoint ne)
    with lr(2) sz[OF a] sz[OF b] show ?thesis by simp
  qed
  have c1: "unat (components ?s') = card (roots ?s')"
  proof -
    from a finite_roots[of s] have "card (roots s) \<noteq> 0" by auto
    with cc have "components s \<noteq> 0" by auto
    then have "unat (components s - 1) = unat (components s) - 1" by (rule unat_minus_one)
    with cc lr(1) a finite_roots[of s] show ?thesis
      by (simp add: attach_fields)
  qed
  have c2: "sizes ?s' ! nat r = int (card (component ?s' r))" if "r \<in> roots ?s'" for r
  proof (cases "r = b")
    case True
    with card_b s'[OF bb] show ?thesis by simp
  next
    case False
    from that lr(1) have rr: "r \<in> roots s" "r \<noteq> a" by auto
    then have "in_bounds ?p r" by (simp add: roots_def)
    with False s' have "sizes ?s' ! nat r = sizes s ! nat r" by simp
    with sz[OF rr(1)] lr(3)[OF rr(2) False] show ?thesis by simp
  qed
  have c3: "1 \<le> sizes ?s' ! nat x \<and> sizes ?s' ! nat x \<le> int (length (parent ?s')) \<and>
        0 \<le> rank ?s' ! nat x" if "in_bounds (parent ?s') x" for x
  proof -
    from that have xb: "in_bounds ?p x" by (simp add: attach_fields)
    have "int (card (component ?s' b)) \<le> int (length (parent ?s'))"
      using card_component_le[of ?s' b] by simp
    with card_b have "sizes s ! nat b + sizes s ! nat a \<le> int (length (parent ?s'))" by simp
    moreover have "length (parent ?s') = length ?p" by (simp add: attach_fields)
    ultimately show ?thesis
      using bd[OF xb] bd[OF ab] bd[OF bb] s'[OF xb] r'[OF xb] by auto
  qed
  have c4: "rank ?s' ! nat r < sizes ?s' ! nat r" if "r \<in> roots ?s'" for r
  proof -
    from that lr(1) have rr: "r \<in> roots s" "r \<noteq> a" by auto
    then have rb: "in_bounds ?p r" by (simp add: roots_def)
    show ?thesis
      using rs[OF rr(1)] rs[OF a] rs[OF b] bd[OF ab] bd[OF bb] s'[OF rb] r'[OF rb] by auto
  qed
  show ?thesis
    unfolding consistent_def
    using n n31 c1 c2 c3 c4 by (simp add: attach_fields)
qed

lemma compressed_consistent:
  assumes "consistent s" and "compressed s s'"
  shows "consistent s'"
proof -
  from assms(2) have e: "roots s' = roots s" "\<And>r. component s' r = component s r"
    "\<And>x. in_bounds (parent s') x \<longleftrightarrow> in_bounds (parent s) x"
    "rank s' = rank s" "sizes s' = sizes s" "n_elems s' = n_elems s"
    "components s' = components s" "length (parent s') = length (parent s)"
    by (simp_all add: compressed_roots compressed_component compressed_in_bounds compressed_def)
  from assms(1) show ?thesis
    unfolding consistent_def e .
qed

subsection \<open>The 32-bit fields\<close>

lemma sint_small:
  fixes w :: "32 word"
  assumes "unat w < 2 ^ 31"
  shows "sint w = int (unat w)"
proof -
  have s: "sint w = (uint w + 2 ^ 31) mod 2 ^ 32 - 2 ^ 31"
    using int_word_sint[of "uint w", where ?'a = 32] by simp
  from assms have "int (unat w) < int (2 ^ 31)" by (simp only: of_nat_less_iff)
  then have lt: "uint w < 2 ^ 31" by simp
  have ge: "0 \<le> uint w" by simp
  from lt ge have "(uint w + 2 ^ 31) mod 2 ^ 32 = uint w + 2 ^ 31"
    by (intro mod_pos_pos_trivial) simp_all
  with s have "sint w = uint w" by simp
  then show ?thesis by simp
qed

lemma unat_word_of_int_small:
  assumes "n < 2 ^ 31"
  shows "unat (word_of_int (int n) :: 32 word) = n"
proof -
  have "unat (word_of_nat n :: 32 word) = n mod 2 ^ 32" by (simp add: unat_of_nat)
  with assms show ?thesis by simp
qed

lemma int_of_u32_of_nat:
  assumes "i < 2 ^ 31"
  shows "int_of_u32 (of_nat i) = int i"
proof -
  have "unat (word_of_nat i :: 32 word) = i mod 2 ^ 32" by (simp add: unat_of_nat)
  with assms have u: "unat (word_of_nat i :: 32 word) = i" by simp
  with assms have "sint (word_of_nat i :: 32 word) = int (unat (word_of_nat i :: 32 word))"
    by (intro sint_small) simp
  with u show ?thesis by (simp add: int_of_u32_def)
qed

lemma int_of_u32_small:
  assumes "unat w < 2 ^ 31"
  shows "int_of_u32 w = int (unat w)"
  using sint_small[OF assms] by (simp add: int_of_u32_def)

subsection \<open>Invariants along a trace of calls\<close>

lemma root_of_identity:
  "root_of (map int [0..<n]) x r \<longleftrightarrow> in_bounds (map int [0..<n]) x \<and> r = x"
proof
  assume "root_of (map int [0..<n]) x r"
  then show "in_bounds (map int [0..<n]) x \<and> r = x"
  proof (induction rule: root_of.induct)
    case (root_of_self x)
    then show ?case by simp
  next
    case (root_of_up x r)
    then have "nat x < n" "0 \<le> x" by (auto simp: in_bounds_def)
    then have "map int [0..<n] ! nat x = x" by simp
    with root_of_up.hyps(2) show ?case by simp
  qed
next
  assume h: "in_bounds (map int [0..<n]) x \<and> r = x"
  then have "nat x < n" "0 \<le> x" by (auto simp: in_bounds_def)
  then have "map int [0..<n] ! nat x = x" by simp
  with h show "root_of (map int [0..<n]) x r"
    by (auto intro: root_of_self)
qed

lemma fresh_invariants:
  assumes n: "n < 2 ^ 31" and s: "DisjointSet_n (int n) = Inr s"
  shows "well_formed s" "consistent s" "length (parent s) = n" "card (roots s) = n"
proof -
  from s have f: "parent s = map int [0..<n]" "rank s = replicate n 0" "sizes s = replicate n 1"
    "n_elems s = word_of_int (int n)" "components s = word_of_int (int n)"
    by (auto simp: DisjointSet_n_def)
  have nth: "map int [0..<n] ! nat x = x" if "in_bounds (parent s) x" for x
    using that by (auto simp: f in_bounds_def)
  have lt: "nat x < n" if "in_bounds (parent s) x" for x
    using that by (auto simp: f in_bounds_def)
  show wf: "well_formed s"
    unfolding well_formed_iff using nth by (simp add: f)
  show len: "length (parent s) = n" by (simp add: f)
  have r: "roots s = {x. in_bounds (parent s) x}"
    using nth by (auto simp: roots_def f)
  then show cr: "card (roots s) = n" by (simp add: card_in_bounds len)
  have c: "component s r = {r}" if "in_bounds (parent s) r" for r
    using that by (auto simp: component_def f root_of_identity)
  from n have "n < 2 ^ 31" .
  then have u: "unat (word_of_int (int n) :: 32 word) = n" by (rule unat_word_of_int_small)
  show "consistent s"
    unfolding consistent_def
  proof (intro conjI ballI allI impI)
    show "unat (n_elems s) = length (parent s)" using u by (simp add: f)
    show "length (parent s) < 2 ^ 31" using n by (simp add: f)
    show "unat (components s) = card (roots s)" using u cr by (simp add: f(5))
  next
    fix r assume "r \<in> roots s"
    then have rb: "in_bounds (parent s) r" by (simp add: r)
    with c lt[OF rb] show "sizes s ! nat r = int (card (component s r))" by (simp add: f(3))
    from lt[OF rb] show "rank s ! nat r < sizes s ! nat r" by (simp add: f(2,3))
  next
    fix x assume xb: "in_bounds (parent s) x"
    from lt[OF xb] show "1 \<le> sizes s ! nat x" by (simp add: f(3))
    from lt[OF xb] show "sizes s ! nat x \<le> int (length (parent s))" by (simp add: f(3) len)
    from lt[OF xb] show "0 \<le> rank s ! nat x" by (simp add: f(2))
  qed
qed

lemma find_step:
  assumes wf: "well_formed s" and co: "consistent s" and xb: "in_bounds (parent s) x"
    and f: "find s x = Some (s', res)"
  shows "well_formed s'" "consistent s'" "compressed s s'"
proof -
  from find_props[OF wf xb] f have c: "compressed s s'" and w: "well_formed s'" by auto
  show "well_formed s'" by (rule w)
  show "compressed s s'" by (rule c)
  show "consistent s'" by (rule compressed_consistent[OF co c])
qed

lemma unite_step:
  assumes wf: "well_formed s" and co: "consistent s"
    and xb: "in_bounds (parent s) x" and yb: "in_bounds (parent s) y"
  obtains s' b where "unite s x y = Some (s', Inr b)" "well_formed s'" "consistent s'"
    "length (parent s') = length (parent s)"
    "card (roots s') + (if b then 1 else 0) = card (roots s)"
    "unat (components s') + (if b then 1 else 0) = unat (components s)"
proof -
  from unite_cases[OF wf xb yb] obtain s1 s2 rx ry where
    rx: "root_of (parent s) x rx" and ry: "root_of (parent s) y ry" and
    c: "compressed s s2" and w2: "well_formed s2" and
    u: "unite s x y =
       (if rx = ry then Some (s2, Inr False)
        else Some (if rank s ! nat rx < rank s ! nat ry then attach s2 rx ry
                   else if rank s ! nat ry < rank s ! nat rx then attach s2 ry rx
                   else (attach s2 ry rx)\<lparr>rank := (rank s)[nat rx := rank s ! nat rx + 1]\<rparr>,
                   Inr True))"
    by blast
  have co2: "consistent s2" by (rule compressed_consistent[OF co c])
  from c have e: "rank s2 = rank s" "length (parent s2) = length (parent s)"
    "components s2 = components s"
    by (simp_all add: compressed_def)
  have r2: "roots s2 = roots s" by (rule compressed_roots[OF c])
  show thesis
  proof (cases "rx = ry")
    case True
    with u have "unite s x y = Some (s2, Inr False)" by simp
    then show thesis using w2 co2 e r2 by (intro that[of s2 False]) simp_all
  next
    case False
    from rx ry have "root_of (parent s) rx rx" "root_of (parent s) ry ry"
      by (auto dest: root_of_root simp: root_of_self_iff)
    then have a: "rx \<in> roots s2" "ry \<in> roots s2" by (simp_all add: r2 in_roots)
    define a' b' rk' where "a' = (if rank s ! nat rx < rank s ! nat ry then rx else ry)"
      and "b' = (if rank s ! nat rx < rank s ! nat ry then ry else rx)"
      and "rk' = (if rank s ! nat rx = rank s ! nat ry then (rank s)[nat rx := rank s ! nat rx + 1]
                  else rank s)"
    let ?s' = "(attach s2 a' b')\<lparr>rank := rk'\<rparr>"
    have ab: "a' \<in> roots s2" "b' \<in> roots s2" "a' \<noteq> b'"
      using a False by (auto simp: a'_def b'_def)
    have rk: "rank s2 ! nat a' < rank s2 ! nat b' \<and> rk' = rank s2 \<or>
             rank s2 ! nat a' = rank s2 ! nat b' \<and> rk' = (rank s2)[nat b' := rank s2 ! nat b' + 1]"
      by (auto simp: a'_def b'_def rk'_def e)
    have w: "well_formed ?s'" by (rule link_well_formed[OF w2 ab rk])
    have cs: "consistent ?s'" by (rule link_consistent[OF w2 co2 ab rk])
    have "roots ?s' = roots s2 - {a'}"
      by (rule link_roots(1)[OF ab]) (simp add: attach_fields)
    moreover have "Suc (card (roots s2 - {a'})) = card (roots s2)"
      by (rule card_Suc_Diff1[OF finite_roots ab(1)])
    ultimately have "Suc (card (roots ?s')) = card (roots s)"
      by (simp only: r2)
    then have cr: "card (roots ?s') + 1 = card (roots s)" by simp
    from cs co have "unat (components ?s') = card (roots ?s')" "unat (components s) = card (roots s)"
      by (simp_all add: consistent_def)
    with cr have cu: "unat (components ?s') + 1 = unat (components s)" by simp
    have "(if rank s ! nat rx < rank s ! nat ry then attach s2 rx ry
                   else if rank s ! nat ry < rank s ! nat rx then attach s2 ry rx
                   else (attach s2 ry rx)\<lparr>rank := (rank s)[nat rx := rank s ! nat rx + 1]\<rparr>) = ?s'"
      by (auto simp: a'_def b'_def rk'_def attach_def e)
    with u False have "unite s x y = Some (?s', Inr True)" by simp
    then show thesis using w cs cr cu e
      by (intro that[of ?s' True]) (simp_all add: attach_fields)
  qed
qed

lemma trace_invariants:
  assumes "unite_trace n k s"
  shows "well_formed s \<and> consistent s \<and> length (parent s) = n \<and> card (roots s) + k = n"
  using assms
proof (induction rule: unite_trace.induct)
  case (trace_new n s)
  then show ?case using fresh_invariants[OF trace_new] by simp
next
  case (trace_find n k s x s' res)
  then have wf: "well_formed s" and co: "consistent s" by simp_all
  note st = find_step[OF wf co trace_find.hyps(2,3)]
  from st(3) have "length (parent s') = length (parent s)" "roots s' = roots s"
    by (simp_all add: compressed_def compressed_roots)
  with st trace_find.IH show ?case by simp
next
  case (trace_unite_true n k s x y s')
  then have wf: "well_formed s" and co: "consistent s" by simp_all
  from unite_step[OF wf co trace_unite_true.hyps(2,3)] trace_unite_true.hyps(4)
  have "well_formed s'" "consistent s'" "length (parent s') = length (parent s)"
    "card (roots s') + 1 = card (roots s)"
    by (auto split: if_splits)
  with trace_unite_true.IH show ?case by simp
next
  case (trace_unite_false n k s x y s')
  then have wf: "well_formed s" and co: "consistent s" by simp_all
  from unite_step[OF wf co trace_unite_false.hyps(2,3)] trace_unite_false.hyps(4)
  have "well_formed s'" "consistent s'" "length (parent s') = length (parent s)"
    "card (roots s') = card (roots s)"
    by (auto split: if_splits)
  with trace_unite_false.IH show ?case by simp
qed

lemma component_number_roots:
  assumes "consistent s"
  shows "get_component_number s = int (card (roots s))"
proof -
  from assms have c: "unat (components s) = card (roots s)" and n: "length (parent s) < 2 ^ 31"
    by (simp_all add: consistent_def)
  have "roots s \<subseteq> {x. in_bounds (parent s) x}" by (auto simp: roots_def)
  then have "card (roots s) \<le> card {x. in_bounds (parent s) x}"
    by (intro card_mono finite_in_bounds)
  with n c have "unat (components s) < 2 ^ 31" by (simp add: card_in_bounds)
  then have "sint (components s) = int (unat (components s))" by (rule sint_small)
  with c show ?thesis by (simp add: get_component_number_def)
qed

text \<open>
  C2. A partition of \<open>n\<close> singletons starts with \<^verbatim>\<open>components == n\<close>; a call of \<^verbatim>\<open>unite\<close> with
  indices in \<open>[0, n)\<close> returns \<^verbatim>\<open>true\<close> or \<^verbatim>\<open>false\<close> and lowers \<^verbatim>\<open>get_component_number()\<close> by
  exactly 1 when it returns \<^verbatim>\<open>true\<close> and by 0 when it returns \<^verbatim>\<open>false\<close>; after any sequence
  of calls with \<open>k\<close> \<^verbatim>\<open>unite\<close> calls that returned \<^verbatim>\<open>true\<close>, \<^verbatim>\<open>get_component_number()\<close> is
  \<open>n - k\<close>.
\<close>

theorem component_count:
  assumes "unite_trace n k s"
  shows "get_component_number s = int n - int k \<and>
         (\<forall>x y. in_bounds (parent s) x \<and> in_bounds (parent s) y \<longrightarrow>
            (\<exists>s' b. unite s x y = Some (s', Inr b) \<and>
               get_component_number s' = get_component_number s - (if b then 1 else 0)))"
proof -
  from trace_invariants[OF assms] have wf: "well_formed s" and co: "consistent s"
    and cr: "card (roots s) + k = n"
    by simp_all
  have "get_component_number s = int (card (roots s))"
    by (rule component_number_roots[OF co])
  with cr have g: "get_component_number s = int n - int k" by linarith
  have "\<exists>s' b. unite s x y = Some (s', Inr b) \<and>
               get_component_number s' = get_component_number s - (if b then 1 else 0)"
    if xb: "in_bounds (parent s) x" and yb: "in_bounds (parent s) y" for x y
  proof -
    from unite_step[OF wf co xb yb] obtain s' b where
      u: "unite s x y = Some (s', Inr b)" and co': "consistent s'" and
      c: "card (roots s') + (if b then 1 else 0) = card (roots s)"
      by blast
    from c have "int (card (roots s')) = int (card (roots s)) - (if b then 1 else 0)"
      by (auto split: if_splits)
    with component_number_roots[OF co] component_number_roots[OF co'] u show ?thesis
      by auto
  qed
  with g show ?thesis by blast
qed

theorem component_count_witness:
  "unite_trace 5 2 \<lparr>parent = [0, 0, 0, 3, 4], rank = [1, 0, 0, 0, 0], sizes = [3, 1, 1, 1, 1],
                      n_elems = 5, components = 3\<rparr> \<and>
   get_component_number \<lparr>parent = [0, 0, 0, 3, 4], rank = [1, 0, 0, 0, 0],
                           sizes = [3, 1, 1, 1, 1], n_elems = 5, components = 3\<rparr> = int 5 - int 2"
proof -
  let ?s0 = "\<lparr>parent = [0, 1, 2, 3, 4], rank = [0, 0, 0, 0, 0], sizes = [1, 1, 1, 1, 1],
              n_elems = 5 :: 32 word, components = 5 :: 32 word\<rparr>"
  let ?s1 = "\<lparr>parent = [0, 0, 2, 3, 4], rank = [1, 0, 0, 0, 0], sizes = [2, 1, 1, 1, 1],
              n_elems = 5 :: 32 word, components = 4 :: 32 word\<rparr>"
  let ?s2 = "\<lparr>parent = [0, 0, 0, 3, 4], rank = [1, 0, 0, 0, 0], sizes = [3, 1, 1, 1, 1],
              n_elems = 5 :: 32 word, components = 3 :: 32 word\<rparr>"
  have "DisjointSet_n (int 5) = Inr ?s0"
    by (simp add: DisjointSet_n_def upt_rec numeral_eq_Suc)
  then have t0: "unite_trace 5 0 ?s0"
    by (intro trace_new) simp_all
  have u1: "unite ?s0 0 1 = Some (?s1, Inr True)"
    by (simp add: unite_def find.simps in_bounds_def)
  have t1: "unite_trace 5 (Suc 0) ?s1"
    by (rule trace_unite_true[OF t0 _ _ u1]) (simp_all add: in_bounds_def)
  have u2: "unite ?s1 1 2 = Some (?s2, Inr True)"
    by (simp add: unite_def find.simps in_bounds_def)
  have "unite_trace 5 (Suc (Suc 0)) ?s2"
    by (rule trace_unite_true[OF t1 _ _ u2]) (simp_all add: in_bounds_def)
  then have t2: "unite_trace 5 2 ?s2" by (simp add: numeral_2_eq_2)
  from component_count[OF t2] t2 show ?thesis by simp
qed

subsection \<open>Public operations as sequences of find and unite\<close>

lemma calls_trans: "calls s1 s2 \<Longrightarrow> calls s s1 \<Longrightarrow> calls s s2"
proof (induction rule: calls.induct)
  case (calls_none s)
  then show ?case by simp
next
  case (calls_find s1 s2 x s3 res)
  from calls_find.IH[OF calls_find.prems] calls_find.hyps(2,3) show ?case
    by (rule calls.calls_find)
next
  case (calls_unite s1 s2 x y s3 res)
  from calls_unite.IH[OF calls_unite.prems] calls_unite.hyps(2,3,4) show ?case
    by (rule calls.calls_unite)
qed

lemma calls_invariants:
  assumes "calls s s'" and "well_formed s" and "consistent s"
  shows "well_formed s' \<and> consistent s' \<and> length (parent s') = length (parent s)"
  using assms
proof (induction rule: calls.induct)
  case (calls_none s)
  then show ?case by simp
next
  case (calls_find s s1 x s2 res)
  then have wf: "well_formed s1" and co: "consistent s1"
    and l: "length (parent s1) = length (parent s)" by simp_all
  note st = find_step[OF wf co calls_find.hyps(2,3)]
  from st(3) have "length (parent s2) = length (parent s1)" by (simp add: compressed_def)
  with st l show ?case by simp
next
  case (calls_unite s s1 x y s2 res)
  then have wf: "well_formed s1" and co: "consistent s1"
    and l: "length (parent s1) = length (parent s)" by simp_all
  from unite_step[OF wf co calls_unite.hyps(2,3)] calls_unite.hyps(4)
  have "well_formed s2" "consistent s2" "length (parent s2) = length (parent s1)"
    by auto
  with l show ?case by simp
qed

lemma calls_trace:
  assumes "calls s s'" and "unite_trace n k s"
  shows "\<exists>k'. k \<le> k' \<and> unite_trace n k' s'"
  using assms
proof (induction rule: calls.induct)
  case (calls_none s)
  then show ?case by blast
next
  case (calls_find s s1 x s2 res)
  then obtain k' where k: "k \<le> k'" and t: "unite_trace n k' s1" by blast
  from t calls_find.hyps(2,3) have "unite_trace n k' s2" by (rule trace_find)
  with k show ?case by blast
next
  case (calls_unite s s1 x y s2 res)
  then obtain k' where k: "k \<le> k'" and t: "unite_trace n k' s1" by blast
  from trace_invariants[OF t] have wf: "well_formed s1" and co: "consistent s1" by simp_all
  from unite_step[OF wf co calls_unite.hyps(2,3)] calls_unite.hyps(4)
  obtain b where u: "unite s1 x y = Some (s2, Inr b)" by auto
  show ?case
  proof (cases b)
    case True
    with u have "unite s1 x y = Some (s2, Inr True)" by simp
    with t calls_unite.hyps(2,3) have "unite_trace n (Suc k') s2" by (rule trace_unite_true)
    with k show ?thesis by (intro exI[of _ "Suc k'"]) simp
  next
    case False
    with u have "unite s1 x y = Some (s2, Inr False)" by simp
    with t calls_unite.hyps(2,3) have "unite_trace n k' s2" by (rule trace_unite_false)
    with k show ?thesis by blast
  qed
qed

lemma find_each_calls:
  assumes "well_formed s" and "consistent s" and "\<forall>i \<in> set is. i < length (parent s)"
  shows "\<exists>s' rs. find_each s is = Some (s', Inr rs) \<and> calls s s'"
  using assms
proof (induction "is" arbitrary: s)
  case Nil
  then show ?case by (auto intro: calls_none)
next
  case (Cons i "is")
  from Cons.prems(2) have n31: "length (parent s) < 2 ^ 31" by (simp add: consistent_def)
  from Cons.prems(3) have il: "i < length (parent s)" by simp
  with n31 have "i < 2 ^ 31" by simp
  then have ci: "int_of_u32 (of_nat i) = int i" by (rule int_of_u32_of_nat)
  from il have ib: "in_bounds (parent s) (int i)" by simp
  from find_props[OF Cons.prems(1) ib] obtain s1 r where
    f: "find s (int i) = Some (s1, Inr r)" by blast
  note st = find_step[OF Cons.prems(1,2) ib f]
  from st(3) have "length (parent s1) = length (parent s)" by (simp add: compressed_def)
  with Cons.prems(3) have "\<forall>i \<in> set is. i < length (parent s1)" by simp
  from Cons.IH[OF st(1,2) this] obtain s2 rs where
    fe: "find_each s1 is = Some (s2, Inr rs)" and c: "calls s1 s2" by blast
  have "calls s s1" using calls_none ib f by (rule calls_find)
  with c have "calls s s2" by (rule calls_trans)
  moreover have "find_each s (i # is) = Some (s2, Inr (r # rs))"
    by (simp add: ci f fe)
  ultimately show ?case by blast
qed

lemma unite_each_calls:
  assumes "well_formed s" and "consistent s"
    and "\<forall>(a, b) \<in> set es. in_bounds (parent s) a \<and> in_bounds (parent s) b"
  shows "\<exists>s'. unite_each s es = Some (s', Inr ()) \<and> calls s s'"
  using assms
proof (induction es arbitrary: s)
  case Nil
  then show ?case by (auto intro: calls_none)
next
  case (Cons e es)
  obtain a b where e: "e = (a, b)" by (cases e)
  with Cons.prems(3) have ab: "in_bounds (parent s) a" "in_bounds (parent s) b" by simp_all
  from unite_step[OF Cons.prems(1,2) ab] obtain s1 r where
    u: "unite s a b = Some (s1, Inr r)" and w1: "well_formed s1" and c1: "consistent s1"
    and l: "length (parent s1) = length (parent s)" by blast
  from l Cons.prems(3)
  have "\<forall>(a, b) \<in> set es. in_bounds (parent s1) a \<and> in_bounds (parent s1) b"
    by (auto simp: in_bounds_def)
  from Cons.IH[OF w1 c1 this] obtain s2 where
    ue: "unite_each s1 es = Some (s2, Inr ())" and c: "calls s1 s2" by blast
  have "calls s s1" using calls_none ab u by (rule calls_unite)
  with c have "calls s s2" by (rule calls_trans)
  moreover have "unite_each s (e # es) = Some (s2, Inr ())"
    by (simp add: e u ue)
  ultimately show ?case by blast
qed

lemma public_step_calls:
  assumes "public_step s s'" and wf: "well_formed s" and co: "consistent s"
  shows "calls s s'"
  using assms(1)
proof (cases rule: public_step.cases)
  case (step_find x res)
  with calls_none show ?thesis by (rule calls_find)
next
  case (step_unite x y b)
  with calls_none show ?thesis by (rule calls_unite)
next
  case (step_add_edges a b_array b_array_size u)
  show ?thesis
  proof (cases "length (shape b_array) \<noteq> 1 \<or> shape b_array ! 0 \<noteq> unat b_array_size")
    case True
    with step_add_edges(4) have "s' = s" by (simp add: add_edges_def)
    then show ?thesis by (simp add: calls_none)
  next
    case False
    let ?es = "map (\<lambda>i. (int_of_u32 a, int_of_u32 (elems b_array ! i))) [0..<unat b_array_size]"
    from False have "shape b_array = [unat b_array_size]"
      by (cases "shape b_array") auto
    with step_add_edges(3) have "length (elems b_array) = unat b_array_size" by simp
    with step_add_edges(1,2)
    have "\<forall>(a, b) \<in> set ?es. in_bounds (parent s) a \<and> in_bounds (parent s) b"
      by auto
    from unite_each_calls[OF wf co this] obtain s2 where
      "unite_each s ?es = Some (s2, Inr ())" "calls s s2" by blast
    with False step_add_edges(4) show ?thesis by (simp add: add_edges_def)
  qed
next
  case (step_rank x res)
  from find_props[OF wf step_rank(1)] obtain s1 r where f: "find s x = Some (s1, Inr r)"
    by blast
  with step_rank(2) have "s' = s1" by (simp add: get_component_rank_def)
  with f have "find s x = Some (s', Inr r)" by simp
  with calls_none step_rank(1) show ?thesis by (rule calls_find)
next
  case (step_size x res)
  from find_props[OF wf step_size(1)] obtain s1 r where f: "find s x = Some (s1, Inr r)"
    by blast
  with step_size(2) have "s' = s1" by (simp add: get_component_size_def)
  with f have "find s x = Some (s', Inr r)" by simp
  with calls_none step_size(1) show ?thesis by (rule calls_find)
next
  case (step_number c)
  then show ?thesis by (simp add: calls_none)
next
  case (step_ancestors rs)
  from co have "\<forall>i \<in> set [0..<unat (n_elems s)]. i < length (parent s)"
    by (simp add: consistent_def)
  from find_each_calls[OF wf co this] step_ancestors show ?thesis
    by (auto simp: get_ancestors_def)
next
  case (step_unique_ancestors rs)
  from co have "\<forall>i \<in> set [0..<unat (n_elems s)]. i < length (parent s)"
    by (simp add: consistent_def)
  from find_each_calls[OF wf co this] step_unique_ancestors show ?thesis
    by (auto simp: get_unique_ancestors_def)
qed

subsection \<open>Every reachable partition is reached by a trace of find and unite\<close>

lemma singletons_fresh:
  assumes "unat rows < 2 ^ 31"
  shows "DisjointSet_n (int (unat rows)) = Inr (singletons rows)"
proof -
  have "map (\<lambda>i. int_of_u32 (of_nat i)) [0..<unat rows] = map int [0..<unat rows]"
  proof (rule map_cong[OF refl])
    fix i assume "i \<in> set [0..<unat rows]"
    with assms have "i < 2 ^ 31" by simp
    then show "int_of_u32 (of_nat i) = int i" by (rule int_of_u32_of_nat)
  qed
  then show ?thesis by (simp add: DisjointSet_n_def singletons_def)
qed

lemma united_pairs_bounds:
  "(i, j) \<in> set (united_pairs close rows) \<Longrightarrow> i < j \<and> j < rows"
  by (auto simp: united_pairs_def)

lemma cluster_trace:
  assumes r: "unat rows < 2 ^ 31" and c: "cluster close rows = Some (Inr s)"
  shows "\<exists>k. unite_trace (unat rows) k s"
proof -
  let ?s0 = "singletons rows"
  let ?es = "map (\<lambda>(i, j). (int_of_u32 (of_nat i), int_of_u32 (of_nat j)))
               (united_pairs close (unat rows))"
  have t0: "unite_trace (unat rows) 0 ?s0"
    using r singletons_fresh[OF r] by (rule trace_new)
  from trace_invariants[OF t0] have wf: "well_formed ?s0" and co: "consistent ?s0"
    and l: "length (parent ?s0) = unat rows" by simp_all
  have "\<forall>(a, b) \<in> set ?es. in_bounds (parent ?s0) a \<and> in_bounds (parent ?s0) b"
  proof (clarsimp simp del: in_bounds_int)
    fix i j assume "(i, j) \<in> set (united_pairs close (unat rows))"
    then have ij: "i < unat rows" "j < unat rows" by (auto dest: united_pairs_bounds)
    with r have "i < 2 ^ 31" "j < 2 ^ 31" by simp_all
    then have "int_of_u32 (of_nat i) = int i" "int_of_u32 (of_nat j) = int j"
      by (simp_all add: int_of_u32_of_nat)
    with ij l show "in_bounds (parent ?s0) (int_of_u32 (word_of_nat i)) \<and>
        in_bounds (parent ?s0) (int_of_u32 (word_of_nat j))" by simp
  qed
  from unite_each_calls[OF wf co this] obtain s2 where
    u: "unite_each ?s0 ?es = Some (s2, Inr ())" and cl: "calls ?s0 s2" by blast
  from c u have "s = s2" by (simp add: cluster_def)
  with calls_trace[OF cl t0] show ?thesis by blast
qed

lemma reachable_trace:
  assumes "reachable s"
  shows "\<exists>n k. unite_trace n k s"
  using assms
proof (induction rule: reachable.induct)
  case (reach_new n s)
  from reach_new(2) have "0 \<le> n" by (auto simp: DisjointSet_n_def split: if_splits)
  with reach_new have "nat n < 2 ^ 31" "DisjointSet_n (int (nat n)) = Inr s" by simp_all
  then have "unite_trace (nat n) 0 s" by (rule trace_new)
  then show ?case by blast
next
  case (reach_array array t s)
  let ?rows = "of_nat (shape array ! 0) :: 32 word"
  have "unat ?rows = shape array ! 0 mod 2 ^ 32" by (simp add: unat_of_nat)
  with reach_array(1) have "unat ?rows < 2 ^ 31" by simp
  moreover from reach_array(2)
  have "\<exists>close. cluster close ?rows = Some (Inr s)"
    by (auto simp: DisjointSet_array_def Let_def split: if_splits)
  ultimately show ?case by (blast dest: cluster_trace)
next
  case (reach_array_shape rows array cols t s)
  from reach_array_shape(2) have "\<exists>close. cluster close rows = Some (Inr s)"
    by (auto simp: DisjointSet_array_shape_def split: if_splits)
  with reach_array_shape(1) show ?case by (blast dest: cluster_trace)
next
  case (reach_step s s')
  then obtain n k where t: "unite_trace n k s" by blast
  from trace_invariants[OF t] have "well_formed s" "consistent s" by simp_all
  with reach_step(2) have "calls s s'" by (rule public_step_calls)
  from calls_trace[OF this t] show ?case by blast
qed

lemma reachable_invariants:
  assumes "reachable s"
  shows "well_formed s" "consistent s"
  using reachable_trace[OF assms] trace_invariants by blast+

lemma find_iff_root_of:
  assumes "well_formed s" and "in_bounds (parent s) x"
  shows "root_of (parent s) x r \<longleftrightarrow> (\<exists>s'. find s x = Some (s', Inr r))"
proof
  assume r: "root_of (parent s) x r"
  from find_props[OF assms] obtain s' r' where
    "find s x = Some (s', Inr r')" "root_of (parent s) x r'" by blast
  with r show "\<exists>s'. find s x = Some (s', Inr r)" by (auto dest: root_of_unique)
next
  assume "\<exists>s'. find s x = Some (s', Inr r)"
  with assms show "root_of (parent s) x r" by (auto intro: find_root_unique)
qed

lemma sum_sizes_roots:
  assumes wf: "well_formed s" and co: "consistent s"
  shows "(\<Sum>r \<in> roots s. sizes s ! nat r) = int (length (parent s))"
proof -
  from co have sz: "\<And>r. r \<in> roots s \<Longrightarrow> sizes s ! nat r = int (card (component s r))"
    by (simp add: consistent_def)
  have "(\<Sum>r \<in> roots s. sizes s ! nat r) = (\<Sum>r \<in> roots s. int (card (component s r)))"
    by (rule sum.cong[OF refl]) (rule sz)
  also have "\<dots> = int (\<Sum>r \<in> roots s. card (component s r))" by simp
  also have "(\<Sum>r \<in> roots s. card (component s r)) = card (\<Union>r \<in> roots s. component s r)"
    by (rule card_UN_disjoint[symmetric])
       (auto simp: finite_roots finite_component dest: component_disjoint)
  also have "(\<Union>r \<in> roots s. component s r) = {x. in_bounds (parent s) x}"
  proof (rule set_eqI)
    fix x
    show "x \<in> (\<Union>r \<in> roots s. component s r) \<longleftrightarrow> x \<in> {x. in_bounds (parent s) x}"
    proof
      assume "x \<in> (\<Union>r \<in> roots s. component s r)"
      then show "x \<in> {x. in_bounds (parent s) x}"
        by (auto simp: component_def dest: root_of_in_bounds)
    next
      assume "x \<in> {x. in_bounds (parent s) x}"
      then have "in_bounds (parent s) x" by simp
      from root_of_exists[OF wf this] obtain r where r: "root_of (parent s) x r" by blast
      from root_of_root[OF r] have "r \<in> roots s" by (simp add: roots_def)
      with r show "x \<in> (\<Union>r \<in> roots s. component s r)" by (auto simp: component_def)
    qed
  qed
  finally show ?thesis by (simp add: card_in_bounds)
qed

text \<open>
  C9. In every partition reachable from a constructor by public operations with indices in
  \<open>[0, n)\<close>, the sizes stored at the current roots add up to \<open>n\<close>, and the size stored at a
  root \<open>r\<close> is the number of elements whose root is \<open>r\<close>, the root of an element being what
  \<^verbatim>\<open>find\<close> returns for it.
\<close>

theorem size_conservation:
  assumes "reachable s"
  shows "(\<Sum>r \<in> roots s. sizes s ! nat r) = int (unat (n_elems s)) \<and>
         (\<forall>r \<in> roots s. sizes s ! nat r = int (card {x. root_of (parent s) x r})) \<and>
         (\<forall>x r. in_bounds (parent s) x \<longrightarrow>
            (root_of (parent s) x r \<longleftrightarrow> (\<exists>s'. find s x = Some (s', Inr r))))"
proof -
  note inv = reachable_invariants[OF assms]
  from inv(2) have n: "unat (n_elems s) = length (parent s)"
    and sz: "\<forall>r \<in> roots s. sizes s ! nat r = int (card (component s r))"
    by (simp_all add: consistent_def)
  from sum_sizes_roots[OF inv] n
  have "(\<Sum>r \<in> roots s. sizes s ! nat r) = int (unat (n_elems s))" by simp
  moreover from sz have "\<forall>r \<in> roots s. sizes s ! nat r = int (card {x. root_of (parent s) x r})"
    by (simp add: component_def)
  moreover have "\<forall>x r. in_bounds (parent s) x \<longrightarrow>
            (root_of (parent s) x r \<longleftrightarrow> (\<exists>s'. find s x = Some (s', Inr r)))"
    using find_iff_root_of[OF inv(1)] by blast
  ultimately show ?thesis by blast
qed

theorem size_conservation_witness:
  "reachable \<lparr>parent = [0, 0, 2], rank = [1, 0, 0], sizes = [2, 1, 1],
               n_elems = 3, components = 2\<rparr> \<and>
   (\<Sum>r \<in> roots \<lparr>parent = [0, 0, 2], rank = [1, 0, 0], sizes = [2, 1, 1],
               n_elems = 3, components = 2\<rparr>.
      sizes \<lparr>parent = [0, 0, 2], rank = [1, 0, 0], sizes = [2, 1, 1],
               n_elems = 3, components = 2\<rparr> ! nat r) =
   int (unat (n_elems \<lparr>parent = [0, 0, 2], rank = [1, 0, 0], sizes = [2, 1, 1],
               n_elems = 3, components = 2\<rparr>)) \<and>
   0 \<in> roots \<lparr>parent = [0, 0, 2], rank = [1, 0, 0], sizes = [2, 1, 1],
               n_elems = 3, components = 2\<rparr> \<and>
   sizes \<lparr>parent = [0, 0, 2], rank = [1, 0, 0], sizes = [2, 1, 1],
               n_elems = 3, components = 2\<rparr> ! nat 0 =
   int (card {x. root_of (parent \<lparr>parent = [0, 0, 2], rank = [1, 0, 0], sizes = [2, 1, 1],
               n_elems = 3, components = 2\<rparr>) x 0})"
proof -
  let ?s0 = "\<lparr>parent = [0, 1, 2], rank = [0, 0, 0], sizes = [1, 1, 1],
              n_elems = 3 :: 32 word, components = 3 :: 32 word\<rparr>"
  let ?s1 = "\<lparr>parent = [0, 0, 2], rank = [1, 0, 0], sizes = [2, 1, 1],
              n_elems = 3 :: 32 word, components = 2 :: 32 word\<rparr>"
  have "DisjointSet_n 3 = Inr ?s0"
    by (simp add: DisjointSet_n_def upt_rec numeral_eq_Suc)
  then have r0: "reachable ?s0"
    by (intro reach_new[of 3]) simp_all
  have u: "unite ?s0 0 1 = Some (?s1, Inr True)"
    by (simp add: unite_def find.simps in_bounds_def)
  have "public_step ?s0 ?s1"
    by (rule step_unite[OF _ _ u]) (simp_all add: in_bounds_def)
  with r0 have r1: "reachable ?s1" by (rule reach_step)
  have "0 \<in> roots ?s1" by (simp add: roots_def in_bounds_def)
  with size_conservation[OF r1] r1 show ?thesis by blast
qed

subsection \<open>Ranks never decrease\<close>

lemma component_rank_value:
  assumes wf: "well_formed s" and xb: "in_bounds (parent s) x"
  shows "\<exists>t r. get_component_rank s x = Some (t, Inr (rank s ! nat r)) \<and>
           root_of (parent s) x r \<and> compressed s t"
proof -
  from find_props[OF wf xb] obtain s1 r where
    f: "find s x = Some (s1, Inr r)" and r: "root_of (parent s) x r" and c: "compressed s s1"
    by blast
  from c have "rank s1 = rank s" by (simp add: compressed_def)
  with f have "get_component_rank s x = Some (s1, Inr (rank s ! nat r))"
    by (simp add: get_component_rank_def)
  with r c show ?thesis by blast
qed

lemma unite_rank:
  assumes wf: "well_formed s" and xb: "in_bounds (parent s) x" and yb: "in_bounds (parent s) y"
    and u: "unite s x y = Some (s', res)"
  shows "(\<forall>z. in_bounds (parent s) z \<longrightarrow> rank s ! nat z \<le> rank s' ! nat z) \<and>
         (\<forall>z r r'. root_of (parent s) z r \<longrightarrow> root_of (parent s') z r' \<longrightarrow>
            rank s ! nat r \<le> rank s' ! nat r') \<and>
         (rank s' = rank s \<or>
          (\<exists>rx ry. root_of (parent s) x rx \<and> root_of (parent s) y ry \<and> rx \<noteq> ry \<and>
             rank s ! nat rx = rank s ! nat ry \<and> res = Inr True \<and>
             parent s' ! nat rx = rx \<and> parent s' ! nat ry = rx \<and>
             rank s' = (rank s)[nat rx := rank s ! nat rx + 1]))"
proof -
  from unite_cases[OF wf xb yb] obtain s1 s2 rx ry where
    rx: "root_of (parent s) x rx" and ry: "root_of (parent s) y ry" and
    c: "compressed s s2" and
    u': "unite s x y =
       (if rx = ry then Some (s2, Inr False)
        else Some (if rank s ! nat rx < rank s ! nat ry then attach s2 rx ry
                   else if rank s ! nat ry < rank s ! nat rx then attach s2 ry rx
                   else (attach s2 ry rx)\<lparr>rank := (rank s)[nat rx := rank s ! nat rx + 1]\<rparr>,
                   Inr True))"
    by blast
  from c have e: "rank s2 = rank s" "length (parent s2) = length (parent s)"
    and ro: "\<And>z r. root_of (parent s2) z r \<longleftrightarrow> root_of (parent s) z r"
    by (simp_all add: compressed_def)
  have lr: "length (rank s) = length (parent s)" by (rule well_formedD(1)[OF wf])
  from root_of_root[OF rx] root_of_root[OF ry]
  have "root_of (parent s) rx rx" "root_of (parent s) ry ry"
    by (simp_all add: root_of_self_iff)
  then have rrx: "root_of (parent s2) rx rx" and rry: "root_of (parent s2) ry ry"
    by (simp_all add: ro)
  then have rxb: "in_bounds (parent s) rx" and ryb: "in_bounds (parent s) ry"
    using e by (auto dest!: root_of_in_bounds simp: in_bounds_def)
  have rkb: "in_bounds (rank s) z \<longleftrightarrow> in_bounds (parent s) z" for z
    using lr by (simp add: in_bounds_def)
  show ?thesis
  proof (cases "rx = ry")
    case True
    with u u' have "s' = s2" by simp
    with e ro show ?thesis by (auto dest: root_of_unique)
  next
    case False
    note ne = False
    define a b where "a = (if rank s ! nat rx < rank s ! nat ry then rx else ry)"
      and "b = (if rank s ! nat rx < rank s ! nat ry then ry else rx)"
    from u u' False have s': "s' = (if rank s ! nat rx < rank s ! nat ry then attach s2 rx ry
                   else if rank s ! nat ry < rank s ! nat rx then attach s2 ry rx
                   else (attach s2 ry rx)\<lparr>rank := (rank s)[nat rx := rank s ! nat rx + 1]\<rparr>)"
      and res: "res = Inr True" by simp_all
    have p': "parent s' = (parent s2)[nat a := b]"
      by (simp add: s' a_def b_def attach_fields)
    have rk': "rank s' = (if rank s ! nat rx = rank s ! nat ry
                       then (rank s)[nat rx := rank s ! nat rx + 1] else rank s)"
      by (auto simp: s' attach_fields e)
    have ab: "root_of (parent s2) a a" "root_of (parent s2) b b" "a \<noteq> b"
      using rrx rry False by (simp_all add: a_def b_def)
    have le_ab: "rank s ! nat a \<le> rank s ! nat b" by (simp add: a_def b_def)
    have ge: "rank s ! nat z \<le> rank s' ! nat z" if "in_bounds (parent s) z" for z
      using that rxb by (simp add: rk' nth_update_int rkb)
    have bb: "in_bounds (parent s) b" using rxb ryb by (simp add: b_def)
    have m2: "rank s ! nat r \<le> rank s' ! nat r'"
      if "root_of (parent s) z r" "root_of (parent s') z r'" for z r r'
    proof -
      from that(2) have "root_of (parent s2) z r' \<and> r' \<noteq> a \<or> root_of (parent s2) z a \<and> r' = b"
        by (simp add: p' root_of_attach[OF ab])
      then show ?thesis
      proof
        assume "root_of (parent s2) z r' \<and> r' \<noteq> a"
        with that(1) have "r' = r" by (auto simp: ro dest: root_of_unique)
        moreover from that(1) have "in_bounds (parent s) r" by (auto dest: root_of_root)
        ultimately show ?thesis using ge by simp
      next
        assume "root_of (parent s2) z a \<and> r' = b"
        with that(1) have "r = a" "r' = b" by (auto simp: ro dest: root_of_unique)
        with le_ab ge[OF bb] show ?thesis by simp
      qed
    qed
    have tie: "parent s' ! nat rx = rx \<and> parent s' ! nat ry = rx"
      if "rank s ! nat rx = rank s ! nat ry"
    proof -
      from that have "a = ry" "b = rx" by (simp_all add: a_def b_def)
      moreover from rrx rry have "in_bounds (parent s2) rx" "in_bounds (parent s2) ry"
        "parent s2 ! nat rx = rx"
        by (auto dest: root_of_root)
      ultimately show ?thesis using False by (simp add: p' nth_update_int)
    qed
    show ?thesis
    proof (intro conjI allI impI)
      fix z assume "in_bounds (parent s) z"
      then show "rank s ! nat z \<le> rank s' ! nat z" by (rule ge)
    next
      fix z r r' assume "root_of (parent s) z r" "root_of (parent s') z r'"
      then show "rank s ! nat r \<le> rank s' ! nat r'" by (rule m2)
    next
      show "rank s' = rank s \<or>
          (\<exists>rx ry. root_of (parent s) x rx \<and> root_of (parent s) y ry \<and> rx \<noteq> ry \<and>
             rank s ! nat rx = rank s ! nat ry \<and> res = Inr True \<and>
             parent s' ! nat rx = rx \<and> parent s' ! nat ry = rx \<and>
             rank s' = (rank s)[nat rx := rank s ! nat rx + 1])"
      proof (cases "rank s ! nat rx = rank s ! nat ry")
        case True
        from True rk' have "rank s' = (rank s)[nat rx := rank s ! nat rx + 1]" by simp
        with rx ry ne res True tie[OF True]
        have "\<exists>rx ry. root_of (parent s) x rx \<and> root_of (parent s) y ry \<and> rx \<noteq> ry \<and>
             rank s ! nat rx = rank s ! nat ry \<and> res = Inr True \<and>
             parent s' ! nat rx = rx \<and> parent s' ! nat ry = rx \<and>
             rank s' = (rank s)[nat rx := rank s ! nat rx + 1]" by blast
        then show ?thesis ..
      next
        case False
        with rk' show ?thesis by simp
      qed
    qed
  qed
qed

lemma calls_rank:
  assumes "calls s s'" and "well_formed s" and "consistent s"
  shows "(\<forall>z. in_bounds (parent s) z \<longrightarrow> rank s ! nat z \<le> rank s' ! nat z) \<and>
         (\<forall>z r r'. root_of (parent s) z r \<longrightarrow> root_of (parent s') z r' \<longrightarrow>
            rank s ! nat r \<le> rank s' ! nat r')"
  using assms
proof (induction rule: calls.induct)
  case (calls_none s)
  then show ?case by (auto dest: root_of_unique)
next
  case (calls_find s s1 x s2 res)
  from calls_invariants[OF calls_find.hyps(1) calls_find.prems]
  have wf: "well_formed s1" and co: "consistent s1" by simp_all
  from find_step(3)[OF wf co calls_find.hyps(2,3)]
  have "rank s2 = rank s1" "\<And>z r. root_of (parent s2) z r \<longleftrightarrow> root_of (parent s1) z r"
    by (simp_all add: compressed_def)
  with calls_find.IH[OF calls_find.prems] show ?case by simp
next
  case (calls_unite s s1 x y s2 res)
  from calls_invariants[OF calls_unite.hyps(1) calls_unite.prems]
  have wf: "well_formed s1" and co: "consistent s1"
    and l: "length (parent s1) = length (parent s)" by simp_all
  note ur = unite_rank[OF wf calls_unite.hyps(2,3,4)]
  note ih = calls_unite.IH[OF calls_unite.prems]
  have ib: "in_bounds (parent s1) z \<longleftrightarrow> in_bounds (parent s) z" for z
    using l by (simp add: in_bounds_def)
  show ?case
  proof (intro conjI allI impI)
    fix z assume zb: "in_bounds (parent s) z"
    with ih have "rank s ! nat z \<le> rank s1 ! nat z" by blast
    also from zb ur have "\<dots> \<le> rank s2 ! nat z" by (simp add: ib)
    finally show "rank s ! nat z \<le> rank s2 ! nat z" .
  next
    fix z r r' assume r: "root_of (parent s) z r" and r': "root_of (parent s2) z r'"
    from r have "in_bounds (parent s1) z" by (auto dest: root_of_in_bounds simp: ib)
    from root_of_exists[OF wf this] obtain r1 where r1: "root_of (parent s1) z r1" by blast
    from ih r r1 have "rank s ! nat r \<le> rank s1 ! nat r1" by blast
    also from ur r1 r' have "\<dots> \<le> rank s2 ! nat r'" by blast
    finally show "rank s ! nat r \<le> rank s2 ! nat r'" .
  qed
qed

lemma public_steps_calls:
  assumes "public_step\<^sup>*\<^sup>* s s'" and "well_formed s" and "consistent s"
  shows "calls s s'"
  using assms
proof (induction rule: rtranclp_induct)
  case base
  show ?case by (rule calls_none)
next
  case (step s1 s2)
  then have c: "calls s s1" by simp
  from calls_invariants[OF c step.prems] have "well_formed s1" "consistent s1" by simp_all
  with step.hyps(2) have "calls s1 s2" by (rule public_step_calls)
  then show ?case using c by (rule calls_trans)
qed

lemma find_each_compressed:
  assumes "well_formed s" and "consistent s" and "\<forall>i \<in> set is. i < length (parent s)"
    and "find_each s is = Some (s', res)"
  shows "compressed s s'"
  using assms
proof (induction "is" arbitrary: s s' res)
  case Nil
  then show ?case by (simp add: compressed_refl)
next
  case (Cons i "is")
  from Cons.prems(2) have n31: "length (parent s) < 2 ^ 31" by (simp add: consistent_def)
  from Cons.prems(3) have il: "i < length (parent s)" by simp
  with n31 have "i < 2 ^ 31" by simp
  then have ci: "int_of_u32 (of_nat i) = int i" by (rule int_of_u32_of_nat)
  from il have ib: "in_bounds (parent s) (int i)" by simp
  from find_props[OF Cons.prems(1) ib] obtain s1 r where
    f: "find s (int i) = Some (s1, Inr r)" by blast
  note st = find_step[OF Cons.prems(1,2) ib f]
  from st(3) have "length (parent s1) = length (parent s)" by (simp add: compressed_def)
  with Cons.prems(3) have b1: "\<forall>i \<in> set is. i < length (parent s1)" by simp
  from find_each_calls[OF st(1,2) b1] obtain s2 rs where
    fe: "find_each s1 is = Some (s2, Inr rs)" by blast
  from Cons.IH[OF st(1,2) b1 fe] have "compressed s1 s2" .
  with st(3) have "compressed s s2" by (rule compressed_trans)
  moreover from Cons.prems(4) have "s' = s2" by (simp add: ci f fe)
  ultimately show ?case by simp
qed

lemma query_compressed:
  assumes wf: "well_formed s" and xb: "in_bounds (parent s) x"
    and q: "find s x = Some (t, res) \<or> get_component_rank s x = Some (t, res) \<or>
            get_component_size s x = Some (t, res)"
  shows "compressed s t"
proof -
  from find_props[OF wf xb] obtain s1 r where
    f: "find s x = Some (s1, Inr r)" and c: "compressed s s1" by blast
  from q f have "t = s1"
    by (auto simp: get_component_rank_def get_component_size_def)
  with c show ?thesis by simp
qed

lemma ancestors_compressed:
  assumes wf: "well_formed s" and co: "consistent s"
    and q: "get_ancestors s = Some (t, res) \<or> get_unique_ancestors s = Some (t, res)"
  shows "compressed s t"
proof -
  from co have b: "\<forall>i \<in> set [0..<unat (n_elems s)]. i < length (parent s)"
    by (simp add: consistent_def)
  from find_each_calls[OF wf co b] obtain s1 rs where
    fe: "find_each s [0..<unat (n_elems s)] = Some (s1, Inr rs)" by blast
  from q fe have "t = s1"
    by (auto simp: get_ancestors_def get_unique_ancestors_def)
  with find_each_compressed[OF wf co b fe] show ?thesis by simp
qed

text \<open>
  C10. From a reachable partition \<open>s\<close>, after any sequence of public operations with indices
  in \<open>[0, n)\<close>: no entry of \<^verbatim>\<open>rank\<close> is lower than before, and \<^verbatim>\<open>get_component_rank(x)\<close> is not
  lower than before for any element \<open>x\<close>. The operations \<^verbatim>\<open>find\<close>, \<^verbatim>\<open>get_component_rank\<close>,
  \<^verbatim>\<open>get_component_size\<close>, \<^verbatim>\<open>get_ancestors\<close> and \<^verbatim>\<open>get_unique_ancestors\<close> leave the \<^verbatim>\<open>rank\<close>
  array as it is; \<^verbatim>\<open>unite\<close> leaves it as it is or, when it merges two roots of equal rank,
  adds one to the rank of the surviving root and changes nothing else in it.
\<close>

theorem rank_never_decreases:
  assumes "reachable s" and "public_step\<^sup>*\<^sup>* s s'"
  shows "(\<forall>x. in_bounds (parent s) x \<longrightarrow> rank s ! nat x \<le> rank s' ! nat x) \<and>
         (\<forall>x. in_bounds (parent s) x \<longrightarrow>
            (\<exists>t v t' v'. get_component_rank s x = Some (t, Inr v) \<and>
               get_component_rank s' x = Some (t', Inr v') \<and> v \<le> v')) \<and>
         (\<forall>x t res. in_bounds (parent s) x \<and>
            (find s x = Some (t, res) \<or> get_component_rank s x = Some (t, res) \<or>
             get_component_size s x = Some (t, res)) \<longrightarrow> rank t = rank s) \<and>
         (\<forall>t res. get_ancestors s = Some (t, res) \<or> get_unique_ancestors s = Some (t, res)
            \<longrightarrow> rank t = rank s) \<and>
         (\<forall>x y t res. in_bounds (parent s) x \<and> in_bounds (parent s) y \<and>
            unite s x y = Some (t, res) \<longrightarrow>
            rank t = rank s \<or>
            (\<exists>rx ry. root_of (parent s) x rx \<and> root_of (parent s) y ry \<and> rx \<noteq> ry \<and>
               rank s ! nat rx = rank s ! nat ry \<and> res = Inr True \<and>
               parent t ! nat rx = rx \<and> parent t ! nat ry = rx \<and>
               rank t = (rank s)[nat rx := rank s ! nat rx + 1]))"
proof -
  note inv = reachable_invariants[OF assms(1)]
  have c: "calls s s'" by (rule public_steps_calls[OF assms(2) inv])
  note cr = calls_rank[OF c inv]
  from calls_invariants[OF c inv] have wf': "well_formed s'"
    and l: "length (parent s') = length (parent s)" by simp_all
  have p1: "\<forall>x. in_bounds (parent s) x \<longrightarrow> rank s ! nat x \<le> rank s' ! nat x"
    using cr by blast
  have p2: "\<exists>t v t' v'. get_component_rank s x = Some (t, Inr v) \<and>
               get_component_rank s' x = Some (t', Inr v') \<and> v \<le> v'"
    if xb: "in_bounds (parent s) x" for x
  proof -
    from xb l have xb': "in_bounds (parent s') x" by (simp add: in_bounds_def)
    from component_rank_value[OF inv(1) xb] obtain t r where
      g: "get_component_rank s x = Some (t, Inr (rank s ! nat r))" and
      r: "root_of (parent s) x r" by blast
    from component_rank_value[OF wf' xb'] obtain t' r' where
      g': "get_component_rank s' x = Some (t', Inr (rank s' ! nat r'))" and
      r': "root_of (parent s') x r'" by blast
    from cr r r' have "rank s ! nat r \<le> rank s' ! nat r'" by blast
    with g g' show ?thesis by blast
  qed
  have p3: "\<forall>x t res. in_bounds (parent s) x \<and>
            (find s x = Some (t, res) \<or> get_component_rank s x = Some (t, res) \<or>
             get_component_size s x = Some (t, res)) \<longrightarrow> rank t = rank s"
  proof (intro allI impI)
    fix x t res
    assume "in_bounds (parent s) x \<and>
            (find s x = Some (t, res) \<or> get_component_rank s x = Some (t, res) \<or>
             get_component_size s x = Some (t, res))"
    then have "compressed s t" using query_compressed[OF inv(1)] by blast
    then show "rank t = rank s" by (simp add: compressed_def)
  qed
  have p4: "\<forall>t res. get_ancestors s = Some (t, res) \<or> get_unique_ancestors s = Some (t, res)
            \<longrightarrow> rank t = rank s"
  proof (intro allI impI)
    fix t res
    assume "get_ancestors s = Some (t, res) \<or> get_unique_ancestors s = Some (t, res)"
    then have "compressed s t" by (rule ancestors_compressed[OF inv])
    then show "rank t = rank s" by (simp add: compressed_def)
  qed
  have p5: "\<forall>x y t res. in_bounds (parent s) x \<and> in_bounds (parent s) y \<and>
            unite s x y = Some (t, res) \<longrightarrow>
            rank t = rank s \<or>
            (\<exists>rx ry. root_of (parent s) x rx \<and> root_of (parent s) y ry \<and> rx \<noteq> ry \<and>
               rank s ! nat rx = rank s ! nat ry \<and> res = Inr True \<and>
               parent t ! nat rx = rx \<and> parent t ! nat ry = rx \<and>
               rank t = (rank s)[nat rx := rank s ! nat rx + 1])"
    using unite_rank[OF inv(1)] by blast
  from p1 p2 p3 p4 p5 show ?thesis by blast
qed

theorem rank_never_decreases_witness:
  "reachable \<lparr>parent = [0, 1, 2], rank = [0, 0, 0], sizes = [1, 1, 1],
               n_elems = 3, components = 3\<rparr> \<and>
   public_step\<^sup>*\<^sup>*
     \<lparr>parent = [0, 1, 2], rank = [0, 0, 0], sizes = [1, 1, 1], n_elems = 3, components = 3\<rparr>
     \<lparr>parent = [0, 0, 2], rank = [1, 0, 0], sizes = [2, 1, 1], n_elems = 3, components = 2\<rparr> \<and>
   in_bounds [0, 1, 2 :: int] 1 \<and>
   [0, 0, 0 :: int] ! nat 1 \<le> [1, 0, 0] ! nat 1 \<and>
   (\<exists>t v t' v'.
      get_component_rank \<lparr>parent = [0, 1, 2], rank = [0, 0, 0], sizes = [1, 1, 1],
                           n_elems = 3, components = 3\<rparr> 1 = Some (t, Inr v) \<and>
      get_component_rank \<lparr>parent = [0, 0, 2], rank = [1, 0, 0], sizes = [2, 1, 1],
                           n_elems = 3, components = 2\<rparr> 1 = Some (t', Inr v') \<and>
      v \<le> v')"
proof -
  let ?s0 = "\<lparr>parent = [0, 1, 2], rank = [0, 0, 0], sizes = [1, 1, 1],
              n_elems = 3 :: 32 word, components = 3 :: 32 word\<rparr>"
  let ?s1 = "\<lparr>parent = [0, 0, 2], rank = [1, 0, 0], sizes = [2, 1, 1],
              n_elems = 3 :: 32 word, components = 2 :: 32 word\<rparr>"
  have "DisjointSet_n 3 = Inr ?s0"
    by (simp add: DisjointSet_n_def upt_rec numeral_eq_Suc)
  then have r0: "reachable ?s0"
    by (intro reach_new[of 3]) simp_all
  have u: "unite ?s0 0 1 = Some (?s1, Inr True)"
    by (simp add: unite_def find.simps in_bounds_def)
  have "public_step ?s0 ?s1"
    by (rule step_unite[OF _ _ u]) (simp_all add: in_bounds_def)
  then have st: "public_step\<^sup>*\<^sup>* ?s0 ?s1" by (rule r_into_rtranclp)
  have ib: "in_bounds (parent ?s0) 1" by (simp add: in_bounds_def)
  from rank_never_decreases[OF r0 st] ib have
    "rank ?s0 ! nat 1 \<le> rank ?s1 ! nat 1"
    "\<exists>t v t' v'. get_component_rank ?s0 1 = Some (t, Inr v) \<and>
         get_component_rank ?s1 1 = Some (t', Inr v') \<and> v \<le> v'"
    by blast+
  with r0 st ib show ?thesis by simp
qed

subsection \<open>The rounding of float is to a nearest value, hence monotone\<close>

lemma round_half_even_nearest:
  "\<bar>of_int (round_half_even y) - y\<bar> \<le> \<bar>of_int k - y\<bar>"
proof -
  let ?f = "\<lfloor>y\<rfloor>"
  have fl: "of_int ?f \<le> y" "y < of_int ?f + 1" by linarith+
  consider "k \<le> ?f" | "?f + 1 \<le> k" by linarith
  then show ?thesis
  proof cases
    case 1
    then have "(of_int k :: real) \<le> of_int ?f" by simp
    with fl show ?thesis
      by (auto simp: round_half_even_def Let_def)
  next
    case 2
    then have "(of_int ?f :: real) + 1 \<le> of_int k" by (metis of_int_1 of_int_add of_int_le_iff)
    with fl show ?thesis
      by (auto simp: round_half_even_def Let_def)
  qed
qed

lemma round_half_even_bounds:
  assumes "of_int a \<le> y" and "y \<le> of_int b"
  shows "a \<le> round_half_even y \<and> round_half_even y \<le> b"
proof -
  from round_half_even_nearest[of y a] round_half_even_nearest[of y b] assms
  have "\<bar>of_int (round_half_even y) - y\<bar> \<le> y - of_int a"
       "\<bar>of_int (round_half_even y) - y\<bar> \<le> of_int b - y" by simp_all
  then have "(of_int a :: real) \<le> of_int (round_half_even y)"
    "(of_int (round_half_even y) :: real) \<le> of_int b" by linarith+
  then show ?thesis by simp
qed

lemma binade:
  assumes "x \<noteq> 0"
  shows "2 powi \<lfloor>log 2 \<bar>x\<bar>\<rfloor> \<le> \<bar>x\<bar> \<and> \<bar>x\<bar> < 2 powi (\<lfloor>log 2 \<bar>x\<bar>\<rfloor> + 1)"
proof -
  have p: "(2 :: real) powr real_of_int k = 2 powi k" for k
    by (rule powr_real_of_int') simp_all
  from assms have "0 < \<bar>x\<bar>" by simp
  then have "2 powr real_of_int \<lfloor>log 2 \<bar>x\<bar>\<rfloor> \<le> \<bar>x\<bar> \<and>
             \<bar>x\<bar> < 2 powr real_of_int (\<lfloor>log 2 \<bar>x\<bar>\<rfloor> + 1)"
    using floor_log_eq_powr_iff[of "\<bar>x\<bar>" 2 "\<lfloor>log 2 \<bar>x\<bar>\<rfloor>"] by simp
  then show ?thesis by (simp only: p)
qed


lemma ulp_facts:
  fixes e :: int
  defines "u \<equiv> (2 :: real) powi (e - 23)"
  shows "0 < u" "2 powi e = 2 ^ 23 * u" "2 powi (e + 1) = 2 ^ 24 * u"
proof -
  show "0 < u" by (simp add: u_def)
  have "(2 :: real) powi ((e - 23) + 23) = 2 powi (e - 23) * 2 powi 23"
    by (rule power_int_add) simp
  then show "2 powi e = 2 ^ 23 * u" by (simp add: u_def)
  have "(2 :: real) powi ((e - 23) + 24) = 2 powi (e - 23) * 2 powi 24"
    by (rule power_int_add) simp
  moreover have "(e - 23) + 24 = e + 1" by simp
  ultimately show "2 powi (e + 1) = 2 ^ 24 * u" by (simp add: u_def)
qed

lemma round_normal_form:
  assumes "x \<noteq> 0"
  obtains e m where "2 ^ 23 * 2 powi (e - 23) \<le> \<bar>x\<bar>" "\<bar>x\<bar> < 2 ^ 24 * 2 powi (e - 23)"
    "m = round_half_even (x / 2 powi (e - 23))" "round_normal x = of_int m * 2 powi (e - 23)"
    "2 ^ 23 \<le> \<bar>m\<bar>" "\<bar>m\<bar> \<le> 2 ^ 24" "0 < x \<longleftrightarrow> 0 < m"
proof -
  define e where "e = \<lfloor>log 2 \<bar>x\<bar>\<rfloor>"
  define u where "u = (2 :: real) powi (e - 23)"
  define m where "m = round_half_even (x / u)"
  note uf = ulp_facts[of e, folded u_def]
  from binade[OF assms] have b: "2 ^ 23 * u \<le> \<bar>x\<bar>" "\<bar>x\<bar> < 2 ^ 24 * u"
    by (simp_all add: e_def[symmetric] uf)
  have fx: "round_normal x = of_int m * u"
    using assms by (simp add: round_normal_def Let_def e_def u_def m_def)
  have mb: "2 ^ 23 \<le> \<bar>m\<bar> \<and> \<bar>m\<bar> \<le> 2 ^ 24 \<and> (0 < x \<longleftrightarrow> 0 < m)"
  proof (cases "0 < x")
    case True
    with b uf(1) have "2 ^ 23 \<le> x / u" "x / u \<le> 2 ^ 24"
      by (simp_all add: pos_le_divide_eq pos_divide_le_eq)
    then have "of_int (2 ^ 23) \<le> x / u" "x / u \<le> of_int (2 ^ 24)" by simp_all
    from round_half_even_bounds[OF this] True show ?thesis by (simp add: m_def)
  next
    case False
    with assms have neg: "x < 0" by simp
    with b uf(1) have "- (2 ^ 24) \<le> x / u" "x / u \<le> - (2 ^ 23)"
      by (simp_all add: pos_le_divide_eq pos_divide_le_eq)
    then have "of_int (- (2 ^ 24)) \<le> x / u" "x / u \<le> of_int (- (2 ^ 23))" by simp_all
    from round_half_even_bounds[OF this] neg show ?thesis by (simp add: m_def)
  qed
  show thesis
    using b fx mb by (intro that[of e m]) (simp_all add: u_def m_def)
qed

lemma round_normal_representable: "representable (round_normal x)"
proof (cases "x = 0")
  case True
  then show ?thesis by (simp add: round_normal_def representable_def)
next
  case False
  from round_normal_form[OF False] obtain e m where
    fx: "round_normal x = of_int m * 2 powi (e - 23)" and m: "2 ^ 23 \<le> \<bar>m\<bar>" "\<bar>m\<bar> \<le> 2 ^ 24"
    by metis
  show ?thesis
  proof (cases "\<bar>m\<bar> < 2 ^ 24")
    case True
    with fx m show ?thesis unfolding representable_def by blast
  next
    case False
    with m have "\<bar>m\<bar> = 2 ^ 24" by simp
    then have "m = 16777216 \<or> m = - 16777216" by (simp add: abs_if split: if_splits)
    then have m2: "m = 2 * (m div 2)" "\<bar>m div 2\<bar> = 2 ^ 23" by auto
    have "(2 :: real) powi ((e - 23) + 1) = 2 powi (e - 23) * 2"
      by (rule power_int_add_1) simp
    moreover have "(e - 23) + 1 = (e + 1) - 23" by simp
    ultimately have "(2 :: real) powi ((e + 1) - 23) = 2 * 2 powi (e - 23)" by simp
    moreover from m2(1) have "real_of_int m = 2 * real_of_int (m div 2)"
      by (metis of_int_mult of_int_numeral)
    ultimately have "round_normal x = of_int (m div 2) * 2 powi ((e + 1) - 23)"
      using fx by simp
    with m2(2) show ?thesis unfolding representable_def
      by (intro disjI2 exI[of _ "m div 2"] exI[of _ "e + 1"]) simp
  qed
qed


lemma round_normal_nearest:
  assumes "representable f"
  shows "\<bar>round_normal x - x\<bar> \<le> \<bar>f - x\<bar>"
proof (cases "x = 0")
  case True
  then show ?thesis by (simp add: round_normal_def)
next
  case False
  from round_normal_form[OF False] obtain e m where
    lo: "2 ^ 23 * 2 powi (e - 23) \<le> \<bar>x\<bar>" and
    m: "m = round_half_even (x / 2 powi (e - 23))" and
    fx: "round_normal x = of_int m * 2 powi (e - 23)"
    by metis
  define u where "u = (2 :: real) powi (e - 23)"
  have u: "0 < u" by (simp add: u_def)
  have fx': "round_normal x = of_int m * u" by (simp add: fx u_def)
  have sc: "\<bar>of_int j - x / u\<bar> * u = \<bar>of_int j * u - x\<bar>" for j :: int
  proof -
    have "\<bar>of_int j - x / u\<bar> * u = \<bar>(of_int j - x / u) * u\<bar>"
      using u by (simp add: abs_mult)
    also have "(of_int j - x / u) * u = of_int j * u - x"
      using u by (simp add: left_diff_distrib)
    finally show ?thesis .
  qed
  have near: "\<bar>round_normal x - x\<bar> \<le> \<bar>of_int k * u - x\<bar>" for k
  proof -
    have "\<bar>of_int m - x / u\<bar> \<le> \<bar>of_int k - x / u\<bar>"
      unfolding m u_def by (rule round_half_even_nearest)
    moreover from u have "0 \<le> u" by simp
    ultimately have "\<bar>of_int m - x / u\<bar> * u \<le> \<bar>of_int k - x / u\<bar> * u"
      by (rule mult_right_mono)
    then have "\<bar>of_int m * u - x\<bar> \<le> \<bar>of_int k * u - x\<bar>" by (simp only: sc)
    then show ?thesis by (simp only: fx')
  qed
  from assms consider "f = 0"
    | m' e' where "2 ^ 23 \<le> \<bar>m' :: int\<bar>" "\<bar>m'\<bar> < 2 ^ 24" "f = of_int m' * 2 powi (e' - 23)"
    unfolding representable_def by blast
  then show ?thesis
  proof cases
    case 1
    with near[of 0] show ?thesis by simp
  next
    case 2
    show ?thesis
    proof (cases "e \<le> e'")
      case True
      have "(2 :: real) powi ((e' - e) + (e - 23)) = 2 powi (e' - e) * 2 powi (e - 23)"
        by (rule power_int_add) simp
      moreover have "(e' - e) + (e - 23) = e' - 23" by simp
      moreover from True have "(2 :: real) powi (e' - e) = of_int (2 ^ nat (e' - e))"
        by (simp add: power_int_def)
      ultimately have "(2 :: real) powi (e' - 23) = of_int (2 ^ nat (e' - e)) * u"
        by (simp add: u_def)
      with 2(3) have "f = of_int (m' * 2 ^ nat (e' - e)) * u" by simp
      with near[of "m' * 2 ^ nat (e' - e)"] show ?thesis by simp
    next
      case False
      then have "e' + 1 \<le> e" by simp
      then have "(2 :: real) powi (e' + 1) \<le> 2 powi e" by (rule power_int_increasing) simp
      with ulp_facts(2)[of e] ulp_facts(3)[of e']
      have le: "2 ^ 24 * (2 :: real) powi (e' - 23) \<le> 2 ^ 23 * u" by (simp add: u_def)
      from 2(2) have "real_of_int \<bar>m'\<bar> < 2 ^ 24"
        by (metis of_int_less_iff of_int_numeral of_int_power)
      moreover have "(0 :: real) < 2 powi (e' - 23)" by simp
      ultimately have "real_of_int \<bar>m'\<bar> * 2 powi (e' - 23) < 2 ^ 24 * 2 powi (e' - 23)"
        by (rule mult_strict_right_mono)
      moreover have "\<bar>f\<bar> = real_of_int \<bar>m'\<bar> * 2 powi (e' - 23)"
        by (simp add: 2(3) abs_mult)
      ultimately have fl: "\<bar>f\<bar> < 2 ^ 23 * u" using le by linarith
      have g: "\<bar>round_normal x - x\<bar> \<le> \<bar>x\<bar> - 2 ^ 23 * u"
      proof (cases "0 < x")
        case True
        with near[of "2 ^ 23"] lo show ?thesis by (simp add: u_def)
      next
        case False
        with near[of "- (2 ^ 23)"] lo show ?thesis by (simp add: u_def)
      qed
      from fl have "\<bar>x\<bar> - 2 ^ 23 * u \<le> \<bar>f - x\<bar>" by linarith
      with g show ?thesis by simp
    qed
  qed
qed

lemma round_normal_zero: "round_normal 0 = 0"
  by (simp add: round_normal_def)

lemma pow_m126: "(2 :: real) powi (- 126) = 2 ^ 23 * 2 powi (- 149)"
  using ulp_facts(2)[of "- 126"] by simp

lemma round_real_subnormal:
  assumes "\<bar>x\<bar> < 2 powi (- 126)"
  obtains k where "\<bar>k\<bar> \<le> 2 ^ 23" "k = round_half_even (x / 2 powi (- 149))"
    "round_real x = of_int k * 2 powi (- 149)"
proof -
  define q where "q = (2 :: real) powi (- 149)"
  have q: "0 < q" by (simp add: q_def)
  from assms have "\<bar>x\<bar> < 2 ^ 23 * q" by (simp only: pow_m126 q_def)
  then have "- (2 ^ 23) * q \<le> x" "x \<le> 2 ^ 23 * q" by linarith+
  with q have "- (2 ^ 23) \<le> x / q" "x / q \<le> 2 ^ 23"
    by (simp_all add: pos_le_divide_eq pos_divide_le_eq)
  then have "of_int (- (2 ^ 23)) \<le> x / q" "x / q \<le> of_int (2 ^ 23)" by simp_all
  from round_half_even_bounds[OF this]
  have "\<bar>round_half_even (x / q)\<bar> \<le> 2 ^ 23" by linarith
  moreover have "round_real x = of_int (round_half_even (x / q)) * q"
    using assms by (simp add: round_real_def q_def)
  ultimately show thesis by (intro that[of "round_half_even (x / q)"]) (simp_all add: q_def)
qed

lemma round_real_normal:
  assumes "\<not> \<bar>x\<bar> < 2 powi (- 126)"
  shows "round_real x = round_normal x" "x \<noteq> 0"
proof -
  show "round_real x = round_normal x" using assms by (simp add: round_real_def)
  have "(0 :: real) < 2 powi (- 126)" by simp
  with assms show "x \<noteq> 0" by auto
qed

lemma round_real_grid: "on_grid (round_real x)"
proof (cases "\<bar>x\<bar> < 2 powi (- 126)")
  case True
  from round_real_subnormal[OF True] obtain k where
    "\<bar>k\<bar> \<le> 2 ^ 23" "round_real x = of_int k * 2 powi (- 149)" by metis
  then show ?thesis unfolding on_grid_def by blast
next
  case False
  note n = round_real_normal[OF False]
  from round_normal_form[OF n(2)] obtain e m where
    hi: "\<bar>x\<bar> < 2 ^ 24 * 2 powi (e - 23)" and
    fx: "round_normal x = of_int m * 2 powi (e - 23)" and m: "2 ^ 23 \<le> \<bar>m\<bar>" "\<bar>m\<bar> \<le> 2 ^ 24"
    by metis
  from hi have "\<bar>x\<bar> < 2 powi (e + 1)" by (simp only: ulp_facts(3)[of e])
  with False have "(2 :: real) powi (- 126) < 2 powi (e + 1)" by linarith
  have e: "- 126 \<le> e"
  proof (rule ccontr)
    assume "\<not> - 126 \<le> e"
    then have "e + 1 \<le> - 126" by simp
    then have "(2 :: real) powi (e + 1) \<le> 2 powi (- 126)" by (rule power_int_increasing) simp
    with \<open>(2 :: real) powi (- 126) < 2 powi (e + 1)\<close> show False by simp
  qed
  show ?thesis
  proof (cases "\<bar>m\<bar> < 2 ^ 24")
    case True
    with fx m e n(1) show ?thesis unfolding on_grid_def by auto
  next
    case False
    with m have "\<bar>m\<bar> = 2 ^ 24" by simp
    then have "m = 16777216 \<or> m = - 16777216" by (simp add: abs_if split: if_splits)
    then have m2: "m = 2 * (m div 2)" "\<bar>m div 2\<bar> = 2 ^ 23" by auto
    have "(2 :: real) powi ((e - 23) + 1) = 2 powi (e - 23) * 2"
      by (rule power_int_add_1) simp
    moreover have "(e - 23) + 1 = (e + 1) - 23" by simp
    ultimately have "(2 :: real) powi ((e + 1) - 23) = 2 * 2 powi (e - 23)" by simp
    moreover from m2(1) have "real_of_int m = 2 * real_of_int (m div 2)"
      by (metis of_int_mult of_int_numeral)
    ultimately have "round_real x = of_int (m div 2) * 2 powi ((e + 1) - 23)"
      using fx n(1) by simp
    moreover from e have "- 126 \<le> e + 1" by simp
    ultimately show ?thesis using m2(2) unfolding on_grid_def
      by (intro disjI2 exI[of _ "m div 2"] exI[of _ "e + 1"]) simp
  qed
qed

lemma on_grid_multiple:
  assumes "on_grid f"
  obtains k :: int where "f = of_int k * 2 powi (- 149)"
proof -
  from assms consider k :: int where "f = of_int k * 2 powi (- 149)"
    | m e where "- 126 \<le> (e :: int)" "f = of_int (m :: int) * 2 powi (e - 23)"
    unfolding on_grid_def by blast
  then show thesis
  proof cases
    case 1
    then show ?thesis by (rule that)
  next
    case 2
    have "(2 :: real) powi ((e + 126) + (- 149)) = 2 powi (e + 126) * 2 powi (- 149)"
      by (rule power_int_add) simp
    moreover have "(e + 126) + (- 149) = e - 23" by simp
    moreover from 2(1) have "(2 :: real) powi (e + 126) = of_int (2 ^ nat (e + 126))"
      by (simp add: power_int_def)
    ultimately have "(2 :: real) powi (e - 23) = of_int (2 ^ nat (e + 126)) * 2 powi (- 149)"
      by simp
    with 2(2) have "f = of_int (m * 2 ^ nat (e + 126)) * 2 powi (- 149)" by simp
    then show ?thesis by (rule that)
  qed
qed

lemma on_grid_cases:
  assumes "on_grid f"
  shows "\<bar>f\<bar> \<le> 2 powi (- 126) \<or> representable f"
proof -
  from assms consider k :: int where "\<bar>k\<bar> \<le> 2 ^ 23" "f = of_int k * 2 powi (- 149)"
    | "representable f"
    unfolding on_grid_def representable_def by blast
  then show ?thesis
  proof cases
    case 1
    from 1(1) have "real_of_int \<bar>k\<bar> \<le> 2 ^ 23"
      by (metis of_int_le_iff of_int_numeral of_int_power)
    moreover have "(0 :: real) \<le> 2 powi (- 149)" by simp
    ultimately have "real_of_int \<bar>k\<bar> * 2 powi (- 149) \<le> 2 ^ 23 * 2 powi (- 149)"
      by (rule mult_right_mono)
    moreover have "\<bar>f\<bar> = real_of_int \<bar>k\<bar> * 2 powi (- 149)" by (simp add: 1(2) abs_mult)
    ultimately show ?thesis by (simp only: pow_m126) simp
  next
    case 2
    then show ?thesis by simp
  qed
qed

lemma representable_m126: "representable (2 powi (- 126))" "representable (- (2 powi (- 126)))"
proof -
  have e: "(2 :: real) powi (- 126) = of_int (2 ^ 23) * 2 powi (- 126 - 23)"
    using ulp_facts(2)[of "- 126"] by (simp only: of_int_power of_int_numeral)
  then have e': "- ((2 :: real) powi (- 126)) = of_int (- (2 ^ 23)) * 2 powi (- 126 - 23)"
    by (simp only: of_int_minus mult_minus_left)
  have b: "(2 :: int) ^ 23 \<le> \<bar>2 ^ 23\<bar>" "\<bar>(2 :: int) ^ 23\<bar> < 2 ^ 24"
    "(2 :: int) ^ 23 \<le> \<bar>- (2 ^ 23)\<bar>" "\<bar>- ((2 :: int) ^ 23)\<bar> < 2 ^ 24" by simp_all
  from b(1,2) e show "representable (2 powi (- 126))"
    unfolding representable_def by blast
  from b(3,4) e' show "representable (- (2 powi (- 126)))"
    unfolding representable_def by blast
qed

lemma round_real_nearest:
  assumes "on_grid f"
  shows "\<bar>round_real x - x\<bar> \<le> \<bar>f - x\<bar>"
proof (cases "\<bar>x\<bar> < 2 powi (- 126)")
  case True
  define u where "u = (2 :: real) powi (- 149)"
  have u: "0 < u" by (simp add: u_def)
  from round_real_subnormal[OF True] obtain m where
    m: "m = round_half_even (x / u)" and fx': "round_real x = of_int m * u"
    unfolding u_def by metis
  have sc: "\<bar>of_int j - x / u\<bar> * u = \<bar>of_int j * u - x\<bar>" for j :: int
  proof -
    have "\<bar>of_int j - x / u\<bar> * u = \<bar>(of_int j - x / u) * u\<bar>"
      using u by (simp add: abs_mult)
    also have "(of_int j - x / u) * u = of_int j * u - x"
      using u by (simp add: left_diff_distrib)
    finally show ?thesis .
  qed
  from on_grid_multiple[OF assms] obtain k :: int where f: "f = of_int k * u"
    unfolding u_def by metis
  have "\<bar>of_int m - x / u\<bar> \<le> \<bar>of_int k - x / u\<bar>"
    unfolding m by (rule round_half_even_nearest)
  moreover from u have "0 \<le> u" by simp
  ultimately have "\<bar>of_int m - x / u\<bar> * u \<le> \<bar>of_int k - x / u\<bar> * u"
    by (rule mult_right_mono)
  then have "\<bar>of_int m * u - x\<bar> \<le> \<bar>of_int k * u - x\<bar>" by (simp only: sc)
  then show ?thesis by (simp only: fx' f)
next
  case False
  note n = round_real_normal[OF False]
  from on_grid_cases[OF assms] show ?thesis
  proof
    assume "representable f"
    from round_normal_nearest[OF this, of x] n(1) show ?thesis by simp
  next
    assume fl: "\<bar>f\<bar> \<le> 2 powi (- 126)"
    have g: "\<bar>round_normal x - x\<bar> \<le> \<bar>x\<bar> - 2 powi (- 126)"
    proof (cases "0 < x")
      case True
      with round_normal_nearest[OF representable_m126(1), of x] False show ?thesis by simp
    next
      case neg: False
      with round_normal_nearest[OF representable_m126(2), of x] False show ?thesis by simp
    qed
    from fl have "\<bar>x\<bar> - 2 powi (- 126) \<le> \<bar>f - x\<bar>" by linarith
    with g n(1) show ?thesis by simp
  qed
qed

lemma round_real_zero: "round_real 0 = 0"
  by (simp add: round_real_def round_half_even_def)

lemma round_real_idempotent: "round_real (round_real x) = round_real x"
  using round_real_nearest[OF round_real_grid[of x], of "round_real x"] by simp

lemma round_real_mono:
  assumes xy: "x \<le> y"
  shows "round_real x \<le> round_real y"
proof (rule ccontr)
  assume "\<not> round_real x \<le> round_real y"
  then have lt: "round_real y < round_real x" by simp
  from round_real_nearest[OF round_real_grid[of y], of x]
  have 1: "\<bar>round_real x - x\<bar> \<le> \<bar>round_real y - x\<bar>" .
  from round_real_nearest[OF round_real_grid[of x], of y]
  have 2: "\<bar>round_real y - y\<bar> \<le> \<bar>round_real x - y\<bar>" .
  from xy lt 1 2 have "x = y" by linarith
  with lt show False by simp
qed

subsection \<open>Overflow, and the order of floats\<close>

lemma round32_cases:
  obtains "round32 x = PosInf" "2 ^ 128 \<le> round_real x"
  | "round32 x = NegInf" "round_real x \<le> - (2 ^ 128)"
  | "round32 x = Fin (round_real x)" "\<bar>round_real x\<bar> < 2 ^ 128"
  by (cases "2 ^ 128 \<le> round_real x"; cases "round_real x \<le> - (2 ^ 128)")
     (auto simp: round32_def Let_def)

lemma round32_not_NaN [simp]: "round32 x \<noteq> NaN"
  by (rule round32_cases[of x]) simp_all

lemma round32_rounded [simp]: "rounded (round32 x)"
  by (rule round32_cases[of x]) (simp_all add: round_real_idempotent)

lemma round32_fixed: "rounded (Fin r) \<Longrightarrow> round32 r = Fin r"
  by (auto simp: round32_def Let_def)

lemma round32_mono:
  assumes "x \<le> y"
  shows "fle (round32 x) (round32 y)"
proof -
  from round_real_mono[OF assms] show ?thesis
    by (auto simp: round32_def Let_def)
qed

lemma round32_nonneg:
  assumes "0 \<le> x"
  shows "fle (Fin 0) (round32 x)"
proof -
  have "round32 0 = Fin 0" by (simp add: round32_def round_real_zero)
  with round32_mono[OF assms] show ?thesis by simp
qed

lemma fle_trans: "fle a b \<Longrightarrow> fle b c \<Longrightarrow> fle a c"
  by (cases a; cases b; cases c) simp_all

lemma fgt_not_fle: "fgt a b \<Longrightarrow> \<not> fle a b"
  by (cases a; cases b) simp_all

lemma fgt_not_NaN: "fgt a b \<Longrightarrow> a \<noteq> NaN"
  by (cases a; cases b) simp_all

subsection \<open>Values of the rounding\<close>

lemma round_real_in_binade:
  assumes "2 powi e \<le> \<bar>x\<bar>" and "\<bar>x\<bar> < 2 powi (e + 1)" and "- 126 \<le> e"
  shows "round_real x = of_int (round_half_even (x / 2 powi (e - 23))) * 2 powi (e - 23)"
proof -
  have "(0 :: real) < 2 powi e" by simp
  with assms(1) have x: "0 < \<bar>x\<bar>" by linarith
  from assms(3) have "(2 :: real) powi (- 126) \<le> 2 powi e" by (rule power_int_increasing) simp
  with assms(1) have n: "\<not> \<bar>x\<bar> < 2 powi (- 126)" by linarith
  have p: "(2 :: real) powr real_of_int k = 2 powi k" for k
    by (rule powr_real_of_int') simp_all
  from assms have "2 powr real_of_int e \<le> \<bar>x\<bar> \<and> \<bar>x\<bar> < 2 powr real_of_int (e + 1)"
    by (simp only: p)
  with x have "\<lfloor>log 2 \<bar>x\<bar>\<rfloor> = e"
    by (subst floor_log_eq_powr_iff) simp_all
  with x show ?thesis
    by (simp only: round_real_normal(1)[OF n]) (simp add: round_normal_def Let_def)
qed

lemma round_real_values:
  "round_real 1 = 1" "round_real (- 1) = - 1"
  "round_real (- (1 / 8192)) = - (1 / 8192)"
  "round_real (1 / 67108864) = 1 / 67108864"
  "round_real (67108865 / 67108864) = 1"
  "round_real (- 3) = - 3" "round_real (- 4) = - 4" "round_real 9 = 9" "round_real 16 = 16"
  "round_real 25 = 25"
  "round_real (- 16425) = - 16425" "round_real (- 444) = - 444"
  "round_real 269780625 = 269780640" "round_real 269780640 = 269780640"
  "round_real 197136 = 197136" "round_real 269977776 = 269977792"
  "round_real 269977761 = 269977760"
proof -
  show "round_real 1 = 1"
    using round_real_in_binade[of 0 1] by (simp add: round_half_even_def power_int_minus)
  show "round_real (- 1) = - 1"
    using round_real_in_binade[of 0 "- 1"] by (simp add: round_half_even_def power_int_minus)
  show "round_real (- (1 / 8192)) = - (1 / 8192)"
    using round_real_in_binade[of "- 13" "- (1 / 8192)"]
    by (simp add: round_half_even_def power_int_minus)
  show "round_real (1 / 67108864) = 1 / 67108864"
    using round_real_in_binade[of "- 26" "1 / 67108864"]
    by (simp add: round_half_even_def power_int_minus)
  show "round_real (67108865 / 67108864) = 1"
    using round_real_in_binade[of 0 "67108865 / 67108864"]
    by (simp add: round_half_even_def power_int_minus)
  show "round_real (- 3) = - 3"
    using round_real_in_binade[of 1 "- 3"] by (simp add: round_half_even_def power_int_minus)
  show "round_real (- 4) = - 4"
    using round_real_in_binade[of 2 "- 4"] by (simp add: round_half_even_def power_int_minus)
  show "round_real 9 = 9"
    using round_real_in_binade[of 3 9] by (simp add: round_half_even_def power_int_minus)
  show "round_real 16 = 16"
    using round_real_in_binade[of 4 16] by (simp add: round_half_even_def power_int_minus)
  show "round_real 25 = 25"
    using round_real_in_binade[of 4 25] by (simp add: round_half_even_def power_int_minus)
  show "round_real (- 16425) = - 16425"
    using round_real_in_binade[of 14 "- 16425"]
    by (simp add: round_half_even_def power_int_minus)
  show "round_real (- 444) = - 444"
    using round_real_in_binade[of 8 "- 444"] by (simp add: round_half_even_def power_int_minus)
  show "round_real 269780625 = 269780640"
    using round_real_in_binade[of 28 269780625] by (simp add: round_half_even_def)
  show "round_real 269780640 = 269780640"
    using round_real_in_binade[of 28 269780640] by (simp add: round_half_even_def)
  show "round_real 197136 = 197136"
    using round_real_in_binade[of 17 197136] by (simp add: round_half_even_def power_int_minus)
  show "round_real 269977776 = 269977792"
    using round_real_in_binade[of 28 269977776] by (simp add: round_half_even_def)
  show "round_real 269977761 = 269977760"
    using round_real_in_binade[of 28 269977761] by (simp add: round_half_even_def)
qed

lemma round32_values:
  "round32 0 = Fin 0" "round32 1 = Fin 1" "round32 (- 1) = Fin (- 1)"
  "round32 (- (1 / 8192)) = Fin (- (1 / 8192))"
  "round32 (1 / 67108864) = Fin (1 / 67108864)"
  "round32 (67108865 / 67108864) = Fin 1"
  "round32 (- 3) = Fin (- 3)" "round32 (- 4) = Fin (- 4)" "round32 9 = Fin 9"
  "round32 16 = Fin 16" "round32 25 = Fin 25"
  "round32 (- 16425) = Fin (- 16425)" "round32 (- 444) = Fin (- 444)"
  "round32 269780625 = Fin 269780640" "round32 269780640 = Fin 269780640"
  "round32 197136 = Fin 197136" "round32 269977776 = Fin 269977792"
  "round32 269977761 = Fin 269977760"
  by (simp_all add: round32_def Let_def round_real_values round_real_zero)

text \<open>
  The ends of the range: half of the smallest subnormal rounds to zero, the largest finite
  value is \<open>2^128 - 2^104\<close>, and the midpoint above it and everything larger is an infinity.
\<close>

lemma round32_range:
  "round32 (2 powi (- 150)) = Fin 0"
  "round32 (2 powi (- 149)) = Fin (2 powi (- 149))"
  "round32 (2 ^ 128 - 2 ^ 104) = Fin (2 ^ 128 - 2 ^ 104)"
  "round32 (2 ^ 128 - 2 ^ 103) = PosInf"
  "round32 (2 ^ 128) = PosInf"
  "round32 (2 ^ 130) = PosInf"
proof -
  show "round32 (2 powi (- 150)) = Fin 0"
    by (simp add: round32_def round_real_def round_half_even_def power_int_minus)
  show "round32 (2 powi (- 149)) = Fin (2 powi (- 149))"
    by (simp add: round32_def round_real_def round_half_even_def power_int_minus)
  show "round32 (2 ^ 128 - 2 ^ 104) = Fin (2 ^ 128 - 2 ^ 104)"
    using round_real_in_binade[of 127 "2 ^ 128 - 2 ^ 104"]
    by (simp add: round32_def round_half_even_def)
  show "round32 (2 ^ 128 - 2 ^ 103) = PosInf"
    using round_real_in_binade[of 127 "2 ^ 128 - 2 ^ 103"]
    by (simp add: round32_def round_half_even_def)
  show "round32 (2 ^ 128) = PosInf"
    using round_real_in_binade[of 128 "2 ^ 128"]
    by (simp add: round32_def round_half_even_def)
  show "round32 (2 ^ 130) = PosInf"
    using round_real_in_binade[of 130 "2 ^ 130"]
    by (simp add: round32_def round_half_even_def)
qed

subsection \<open>The early exit of the spatial builder\<close>

lemma fadd_rounded [simp]: "rounded (fadd a b)"
  by (cases a; cases b) simp_all

lemma fmul_self_cases:
  "fmul x x = NaN \<or> fmul x x = PosInf \<or> (\<exists>r\<ge>0. fmul x x = Fin r)"
proof (cases x)
  case (Fin a)
  have "fle (Fin 0) (round32 (a * a))" by (rule round32_nonneg) simp
  then have "round32 (a * a) = PosInf \<or> (\<exists>r\<ge>0. round32 (a * a) = Fin r)"
    by (cases "round32 (a * a)") simp_all
  with Fin show ?thesis by simp
qed simp_all

lemma fadd_nonneg:
  assumes d: "rounded d" and e: "e = NaN \<or> e = PosInf \<or> (\<exists>r\<ge>0. e = Fin r)"
  shows "fadd d e = NaN \<or> fle d (fadd d e)"
proof (cases d)
  case (Fin a)
  from e consider "e = NaN" | "e = PosInf" | r where "0 \<le> r" "e = Fin r" by blast
  then show ?thesis
  proof cases
    case 3
    from 3(1) have "a \<le> a + r" by simp
    then have "fle (round32 a) (round32 (a + r))" by (rule round32_mono)
    moreover from d Fin have "round32 a = Fin a" by (simp add: round32_fixed)
    ultimately show ?thesis using Fin 3(2) by simp
  qed (simp_all add: Fin)
next
  case PosInf
  with e show ?thesis by auto
next
  case NegInf
  with e show ?thesis by auto
next
  case NaN
  then show ?thesis by simp
qed

lemma full_distance_NaN [simp]: "full_distance buf cols i j ks NaN = NaN"
  by (induction ks) (simp_all add: Let_def)

lemma full_distance_ge:
  "rounded d \<Longrightarrow>
     full_distance buf cols i j ks d = NaN \<or> fle d (full_distance buf cols i j ks d) \<or> d = NaN"
proof (induction ks arbitrary: d)
  case Nil
  then show ?case by (cases d) simp_all
next
  case (Cons k ks)
  let ?diff = "fsub (buf ! (i * cols + k)) (buf ! (j * cols + k))"
  let ?d' = "fadd d (fmul ?diff ?diff)"
  have f: "full_distance buf cols i j (k # ks) d = full_distance buf cols i j ks ?d'"
    by (simp add: Let_def)
  from fadd_nonneg[OF Cons.prems fmul_self_cases[of ?diff]]
  have s: "?d' = NaN \<or> fle d ?d'" .
  have "rounded ?d'" by simp
  from Cons.IH[OF this]
  have ih: "full_distance buf cols i j ks ?d' = NaN \<or>
            fle ?d' (full_distance buf cols i j ks ?d') \<or> ?d' = NaN" .
  from s show ?case
  proof
    assume "?d' = NaN"
    then show ?thesis by (simp only: f full_distance_NaN) simp
  next
    assume le: "fle d ?d'"
    from ih show ?thesis
    proof (elim disjE)
      assume "fle ?d' (full_distance buf cols i j ks ?d')"
      with le have "fle d (full_distance buf cols i j ks ?d')" by (rule fle_trans)
      then show ?thesis by (simp only: f) simp
    next
      assume "full_distance buf cols i j ks ?d' = NaN"
      then show ?thesis by (simp only: f) simp
    next
      assume "?d' = NaN"
      then show ?thesis by (simp only: f full_distance_NaN) simp
    qed
  qed
qed

lemma accumulate_decision:
  "fle (accumulate buf cols t i j ks d) (fmul t t) \<longleftrightarrow>
   fle (full_distance buf cols i j ks d) (fmul t t)"
proof (induction ks arbitrary: d)
  case Nil
  then show ?case by simp
next
  case (Cons k ks)
  let ?diff = "fsub (buf ! (i * cols + k)) (buf ! (j * cols + k))"
  let ?d' = "fadd d (fmul ?diff ?diff)"
  let ?D = "full_distance buf cols i j ks ?d'"
  have f: "full_distance buf cols i j (k # ks) d = ?D" by (simp add: Let_def)
  show ?case
  proof (cases "fgt ?d' (fmul t t)")
    case True
    then have a: "accumulate buf cols t i j (k # ks) d = ?d'" by (simp add: Let_def)
    from True have n: "\<not> fle ?d' (fmul t t)" "?d' \<noteq> NaN"
      by (rule fgt_not_fle, rule fgt_not_NaN)
    have "rounded ?d'" by simp
    from full_distance_ge[OF this, of buf cols i j ks] n(2)
    have "?D = NaN \<or> fle ?d' ?D" by blast
    then have "\<not> fle ?D (fmul t t)"
    proof
      assume "?D = NaN"
      then show ?thesis by simp
    next
      assume "fle ?d' ?D"
      with n(1) show ?thesis using fle_trans by blast
    qed
    with n(1) show ?thesis by (simp only: a f)
  next
    case False
    then have a: "accumulate buf cols t i j (k # ks) d = accumulate buf cols t i j ks ?d'"
      by (simp add: Let_def)
    from Cons.IH[of ?d'] show ?thesis by (simp only: a f)
  qed
qed

lemma within_threshold_unpruned_eq:
  "within_threshold buf cols t = within_threshold_unpruned buf cols t"
  by (intro ext) (simp only: within_threshold_def within_threshold_unpruned_def
      accumulate_decision)

text \<open>
  C5. The early exit changes no decision, whatever the array and the threshold hold:
  finite values, infinities or NaN, with overflow and underflow in the accumulation. For
  every pair \<open>(i, j)\<close> the test on the distance left by the loop with the early exit equals
  the test on the distance accumulated in float arithmetic over all \<^verbatim>\<open>cols\<close> dimensions, and
  both spatial constructors return exactly what the builders without the early exit return.
\<close>

theorem early_exit_same_partition:
  "(\<forall>i j. within_threshold buf cols t i j \<longleftrightarrow> within_threshold_unpruned buf cols t i j) \<and>
   DisjointSet_array array t = DisjointSet_array_unpruned array t \<and>
   DisjointSet_array_shape array rows cols' t =
     DisjointSet_array_shape_unpruned array rows cols' t"
  unfolding DisjointSet_array_def DisjointSet_array_unpruned_def
    DisjointSet_array_shape_def DisjointSet_array_shape_unpruned_def
  by (simp add: within_threshold_unpruned_eq)

theorem early_exit_same_partition_witness:
  "accumulate [Fin 0, Fin 0, Fin 3, Fin 4] 2 (Fin 1) 0 1 [0..<2] (Fin 0) = Fin 9 \<and>
   full_distance [Fin 0, Fin 0, Fin 3, Fin 4] 2 0 1 [0..<2] (Fin 0) = Fin 25 \<and>
   within_threshold [Fin 0, Fin 0, Fin 3, Fin 4] 2 (Fin 1) 0 1 =
     within_threshold_unpruned [Fin 0, Fin 0, Fin 3, Fin 4] 2 (Fin 1) 0 1 \<and>
   DisjointSet_array \<lparr>shape = [2, 2], elems = [Fin 0, Fin 0, Fin 3, Fin 4]\<rparr> (Fin 1) =
     DisjointSet_array_unpruned \<lparr>shape = [2, 2], elems = [Fin 0, Fin 0, Fin 3, Fin 4]\<rparr> (Fin 1) \<and>
   DisjointSet_array_shape \<lparr>shape = [2, 2], elems = [Fin 0, Fin 0, Fin 3, Fin 4]\<rparr> 2 2 (Fin 1) =
     DisjointSet_array_shape_unpruned
       \<lparr>shape = [2, 2], elems = [Fin 0, Fin 0, Fin 3, Fin 4]\<rparr> 2 2 (Fin 1) \<and>
   accumulate [PosInf, Fin 0, PosInf, Fin 1] 2 (Fin 1) 0 1 [0..<2] (Fin 0) = NaN \<and>
   full_distance [PosInf, Fin 0, PosInf, Fin 1] 2 0 1 [0..<2] (Fin 0) = NaN \<and>
   within_threshold [PosInf, Fin 0, PosInf, Fin 1] 2 (Fin 1) 0 1 =
     within_threshold_unpruned [PosInf, Fin 0, PosInf, Fin 1] 2 (Fin 1) 0 1 \<and>
   accumulate [Fin 0, Fin 0, NegInf, Fin 1] 2 (Fin 1) 0 1 [0..<2] (Fin 0) = PosInf \<and>
   full_distance [Fin 0, Fin 0, NegInf, Fin 1] 2 0 1 [0..<2] (Fin 0) = PosInf \<and>
   within_threshold [Fin 0, Fin 0, NegInf, Fin 1] 2 (Fin 1) 0 1 =
     within_threshold_unpruned [Fin 0, Fin 0, NegInf, Fin 1] 2 (Fin 1) 0 1"
proof -
  let ?b = "[Fin 0, Fin 0, Fin 3, Fin 4]"
  let ?c = "[PosInf, Fin 0, PosInf, Fin 1]"
  let ?d = "[Fin 0, Fin 0, NegInf, Fin 1]"
  have l: "[0..<2] = [0, 1]" by (simp add: upt_rec numeral_eq_Suc)
  have a: "accumulate ?b 2 (Fin 1) 0 1 [0..<2] (Fin 0) = Fin 9"
    by (simp add: l round32_values Let_def)
  have f: "full_distance ?b 2 0 1 [0..<2] (Fin 0) = Fin 25"
    by (simp add: l round32_values Let_def)
  have a': "accumulate ?c 2 (Fin 1) 0 1 [0..<2] (Fin 0) = NaN"
    by (simp add: l round32_values Let_def)
  have f': "full_distance ?c 2 0 1 [0..<2] (Fin 0) = NaN"
    by (simp add: l round32_values Let_def)
  have a'': "accumulate ?d 2 (Fin 1) 0 1 [0..<2] (Fin 0) = PosInf"
    by (simp add: l round32_values Let_def)
  have f'': "full_distance ?d 2 0 1 [0..<2] (Fin 0) = PosInf"
    by (simp add: l round32_values Let_def)
  from early_exit_same_partition[where buf = ?b and cols = 2 and t = "Fin 1"
      and array = "\<lparr>shape = [2, 2], elems = ?b\<rparr>" and rows = 2 and cols' = 2]
  have 1: "within_threshold ?b 2 (Fin 1) 0 1 = within_threshold_unpruned ?b 2 (Fin 1) 0 1"
    "DisjointSet_array \<lparr>shape = [2, 2], elems = ?b\<rparr> (Fin 1) =
       DisjointSet_array_unpruned \<lparr>shape = [2, 2], elems = ?b\<rparr> (Fin 1)"
    "DisjointSet_array_shape \<lparr>shape = [2, 2], elems = ?b\<rparr> 2 2 (Fin 1) =
       DisjointSet_array_shape_unpruned \<lparr>shape = [2, 2], elems = ?b\<rparr> 2 2 (Fin 1)"
    by blast+
  from early_exit_same_partition[where buf = ?c and cols = 2 and t = "Fin 1"]
  have 2: "within_threshold ?c 2 (Fin 1) 0 1 = within_threshold_unpruned ?c 2 (Fin 1) 0 1"
    by blast
  from early_exit_same_partition[where buf = ?d and cols = 2 and t = "Fin 1"]
  have 3: "within_threshold ?d 2 (Fin 1) 0 1 = within_threshold_unpruned ?d 2 (Fin 1) 0 1"
    by blast
  from a f 1 a' f' 2 a'' f'' 3 show ?thesis by (intro conjI)
qed

subsection \<open>The shape checks\<close>

text \<open>
  C8. The validating constructor given an array whose shape is not the declared
  \<open>(rows, cols)\<close> throws the runtime error of line 69 and returns no partition; \<^verbatim>\<open>add_edges\<close>
  given a neighbour array whose shape is not the declared length throws the runtime error
  of line 116 and leaves the partition exactly as it was.
\<close>

theorem shape_checks_first:
  "(shape array \<noteq> [unat rows, unat cols] \<longrightarrow>
      DisjointSet_array_shape array rows cols t =
        Some (Inl (RuntimeError ''Input array must be 2-dimensional and match the specified shape.''))) \<and>
   (shape b_array \<noteq> [unat b_array_size] \<longrightarrow>
      add_edges s a b_array b_array_size =
        Some (s, Inl (RuntimeError ''Input array must be 1-dimensional and match the specified size.'')))"
proof (intro conjI impI)
  assume "shape array \<noteq> [unat rows, unat cols]"
  then have "length (shape array) \<noteq> 2 \<or> shape array ! 0 \<noteq> unat rows \<or>
             shape array ! 1 \<noteq> unat cols"
    by (cases "shape array"; cases "tl (shape array)"; cases "tl (tl (shape array))") auto
  then show "DisjointSet_array_shape array rows cols t =
        Some (Inl (RuntimeError ''Input array must be 2-dimensional and match the specified shape.''))"
    by (simp add: DisjointSet_array_shape_def)
next
  assume "shape b_array \<noteq> [unat b_array_size]"
  then have "length (shape b_array) \<noteq> 1 \<or> shape b_array ! 0 \<noteq> unat b_array_size"
    by (cases "shape b_array"; cases "tl (shape b_array)") auto
  then show "add_edges s a b_array b_array_size =
        Some (s, Inl (RuntimeError ''Input array must be 1-dimensional and match the specified size.''))"
    by (simp add: add_edges_def)
qed

theorem shape_checks_first_witness:
  "[3, 2] \<noteq> [unat (2 :: 32 word), unat (2 :: 32 word)] \<and>
   DisjointSet_array_shape
       \<lparr>shape = [3, 2], elems = [Fin 0, Fin 0, Fin 1, Fin 1, Fin 2, Fin 2]\<rparr> 2 2 (Fin 1) =
     Some (Inl (RuntimeError ''Input array must be 2-dimensional and match the specified shape.'')) \<and>
   [2] \<noteq> [unat (3 :: 32 word)] \<and>
   add_edges \<lparr>parent = [0, 1, 2], rank = [0, 0, 0], sizes = [1, 1, 1], n_elems = 3, components = 3\<rparr>
       0 \<lparr>shape = [2], elems = [1, 2]\<rparr> 3 =
     Some (\<lparr>parent = [0, 1, 2], rank = [0, 0, 0], sizes = [1, 1, 1], n_elems = 3, components = 3\<rparr>,
           Inl (RuntimeError ''Input array must be 1-dimensional and match the specified size.''))"
  using shape_checks_first
    [of "\<lparr>shape = [3, 2], elems = [Fin 0, Fin 0, Fin 1, Fin 1, Fin 2, Fin 2]\<rparr>" 2 2 "Fin 1"
        "\<lparr>shape = [2], elems = [1, 2]\<rparr>" 3
        "\<lparr>parent = [0, 1, 2], rank = [0, 0, 0], sizes = [1, 1, 1], n_elems = 3, components = 3\<rparr>" 0]
  by simp

subsection \<open>The threshold test\<close>

lemma united_pairs_iff:
  "(i, j) \<in> set (united_pairs close rows) \<longleftrightarrow> i < j \<and> j < rows \<and> close i j"
  by (force simp: united_pairs_def)





text \<open>
  At the ends of the range the decisions are those of the code as well. The points \<open>0\<close> and
  \<open>2^-75\<close> with \<open>t = 0\<close> are united: the square \<open>2^-150\<close> of their difference underflows to
  \<open>0\<close>. The points \<open>0\<close> and \<open>2^65\<close> with \<open>t = 2^64\<close> are united: the square \<open>2^130\<close> and the
  product \<open>t * t = 2^128\<close> both overflow to \<open>+inf\<close>, which is not above itself.
\<close>

lemma range_decisions:
  "full_distance [Fin 0, Fin (2 powi (- 75))] 1 0 1 [0..<1] (Fin 0) = Fin 0 \<and>
   (0, 1) \<in> set (united_pairs (within_threshold [Fin 0, Fin (2 powi (- 75))] 1 (Fin 0)) 2) \<and>
   full_distance [Fin 0, Fin (2 ^ 65)] 1 0 1 [0..<1] (Fin 0) = PosInf \<and>
   fmul (Fin (2 ^ 64)) (Fin (2 ^ 64)) = PosInf \<and>
   (0, 1) \<in> set (united_pairs (within_threshold [Fin 0, Fin (2 ^ 65)] 1 (Fin (2 ^ 64))) 2)"
proof -
  have a: "round32 (- (2 powi (- 75))) = Fin (- (2 powi (- 75)))"
    using round_real_in_binade[of "- 75" "- (2 powi (- 75))"]
    by (simp add: round32_def round_half_even_def power_int_minus)
  have "(- ((2 :: real) powi (- 75))) * (- (2 powi (- 75))) = 2 powi (- 150)"
    by (simp add: power_int_minus)
  then have b: "fmul (Fin (- (2 powi (- 75)))) (Fin (- (2 powi (- 75)))) = Fin 0"
    by (simp only: fmul.simps round32_range)
  have c: "round32 (- (2 ^ 65)) = Fin (- (2 ^ 65))"
    using round_real_in_binade[of 65 "- (2 ^ 65)"]
    by (simp add: round32_def round_half_even_def)
  have "(- ((2 :: real) ^ 65)) * (- (2 ^ 65)) = 2 ^ 130" "(2 :: real) ^ 64 * 2 ^ 64 = 2 ^ 128"
    by simp_all
  then have d: "fmul (Fin (- (2 ^ 65))) (Fin (- (2 ^ 65))) = PosInf"
    "fmul (Fin (2 ^ 64)) (Fin (2 ^ 64)) = PosInf"
    by (simp_all only: fmul.simps round32_range)
  have l: "[0..<1] = [0]" by simp
  have n: "[Fin 0, x] ! (0 * 1 + 0) = Fin 0" "[Fin 0, x] ! (1 * 1 + 0) = x" for x
    by simp_all
  have m: "fsub (Fin 0) (Fin y) = round32 (- y)" for y by simp
  have f1: "full_distance [Fin 0, Fin (2 powi (- 75))] 1 0 1 [0..<1] (Fin 0) = Fin 0"
    by (simp only: l full_distance.simps Let_def n m a b fadd.simps add_0 round32_values)
  have f2: "full_distance [Fin 0, Fin (2 ^ 65)] 1 0 1 [0..<1] (Fin 0) = PosInf"
    by (simp only: l full_distance.simps Let_def n m c d fadd.simps)
  have z: "fmul (Fin 0) (Fin 0) = Fin 0" by (simp add: round32_values)
  from f1 z have w1: "within_threshold [Fin 0, Fin (2 powi (- 75))] 1 (Fin 0) 0 1"
    by (simp only: within_threshold_unpruned_eq within_threshold_unpruned_def fle.simps)
  from f2 d(2) have w2: "within_threshold [Fin 0, Fin (2 ^ 65)] 1 (Fin (2 ^ 64)) 0 1"
    by (simp only: within_threshold_unpruned_eq within_threshold_unpruned_def fle.simps)
  from w1 w2 have "(0, 1) \<in> set (united_pairs
        (within_threshold [Fin 0, Fin (2 powi (- 75))] 1 (Fin 0)) 2)"
    "(0, 1) \<in> set (united_pairs (within_threshold [Fin 0, Fin (2 ^ 65)] 1 (Fin (2 ^ 64))) 2)"
    by (simp_all only: united_pairs_iff) simp_all
  with f1 f2 d(2) show ?thesis by (intro conjI)
qed

subsection \<open>Indices outside the arrays\<close>

lemma find_out_of_bounds:
  "\<not> in_bounds (parent s) x \<Longrightarrow> find s x = Some (s, Inl UndefinedBehaviour)"
  by (subst find.simps) simp

text \<open>
  C1, as the code has it. No operation checks an index. With \<open>x\<close> outside \<open>[0, n)\<close>,
  \<^verbatim>\<open>find(x)\<close>, \<^verbatim>\<open>get_component_rank(x)\<close>, \<^verbatim>\<open>get_component_size(x)\<close> and \<^verbatim>\<open>unite(x, y)\<close> read
  \<^verbatim>\<open>parent[x]\<close> outside the array, which is undefined behaviour and not a reported error,
  nothing having been written before that read. With \<open>x\<close> inside and \<open>y\<close> outside \<open>[0, n)\<close>
  on a well-formed partition, \<^verbatim>\<open>unite(x, y)\<close> first completes \<^verbatim>\<open>find(x)\<close>, which may move
  parent pointers to the root of \<open>x\<close>, and then reads \<^verbatim>\<open>parent[y]\<close> outside the array; \<^verbatim>\<open>rank\<close>,
  \<^verbatim>\<open>size\<close>, \<^verbatim>\<open>n\<close> and \<^verbatim>\<open>components\<close> are as before.
\<close>

theorem out_of_range_unchecked:
  "(\<not> in_bounds (parent s) x \<longrightarrow>
      find s x = Some (s, Inl UndefinedBehaviour) \<and>
      get_component_rank s x = Some (s, Inl UndefinedBehaviour) \<and>
      get_component_size s x = Some (s, Inl UndefinedBehaviour) \<and>
      unite s x y = Some (s, Inl UndefinedBehaviour)) \<and>
   (well_formed s \<and> in_bounds (parent s) x \<and> \<not> in_bounds (parent s) y \<longrightarrow>
      (\<exists>s'. unite s x y = Some (s', Inl UndefinedBehaviour) \<and> compressed s s'))"
proof (intro conjI impI)
  assume "\<not> in_bounds (parent s) x"
  then have f: "find s x = Some (s, Inl UndefinedBehaviour)" by (rule find_out_of_bounds)
  then show "find s x = Some (s, Inl UndefinedBehaviour)"
    "get_component_rank s x = Some (s, Inl UndefinedBehaviour)"
    "get_component_size s x = Some (s, Inl UndefinedBehaviour)"
    "unite s x y = Some (s, Inl UndefinedBehaviour)"
    by (simp_all add: get_component_rank_def get_component_size_def unite_def)
next
  assume a: "well_formed s \<and> in_bounds (parent s) x \<and> \<not> in_bounds (parent s) y"
  then have wf: "well_formed s" and xb: "in_bounds (parent s) x"
    and yb: "\<not> in_bounds (parent s) y" by simp_all
  from find_props[OF wf xb] obtain s1 r where
    f: "find s x = Some (s1, Inr r)" and c: "compressed s s1" by blast
  from yb c have "\<not> in_bounds (parent s1) y" by (simp add: compressed_in_bounds)
  then have "find s1 y = Some (s1, Inl UndefinedBehaviour)" by (rule find_out_of_bounds)
  with f have "unite s x y = Some (s1, Inl UndefinedBehaviour)" by (simp add: unite_def)
  with c show "\<exists>s'. unite s x y = Some (s', Inl UndefinedBehaviour) \<and> compressed s s'"
    by blast
qed

theorem out_of_range_unchecked_witness:
  "\<not> in_bounds [0, 0, 0, 2 :: int] 7 \<and>
   find \<lparr>parent = [0, 0, 0, 2], rank = [2, 0, 1, 0], sizes = [4, 1, 2, 1],
          n_elems = 4, components = 1\<rparr> 7 =
     Some (\<lparr>parent = [0, 0, 0, 2], rank = [2, 0, 1, 0], sizes = [4, 1, 2, 1],
             n_elems = 4, components = 1\<rparr>, Inl UndefinedBehaviour) \<and>
   well_formed \<lparr>parent = [0, 0, 0, 2], rank = [2, 0, 1, 0], sizes = [4, 1, 2, 1],
                 n_elems = 4, components = 1\<rparr> \<and>
   in_bounds [0, 0, 0, 2 :: int] 3 \<and>
   (\<exists>s'. unite \<lparr>parent = [0, 0, 0, 2], rank = [2, 0, 1, 0], sizes = [4, 1, 2, 1],
                 n_elems = 4, components = 1\<rparr> 3 7 = Some (s', Inl UndefinedBehaviour) \<and>
      compressed \<lparr>parent = [0, 0, 0, 2], rank = [2, 0, 1, 0], sizes = [4, 1, 2, 1],
                   n_elems = 4, components = 1\<rparr> s')"
  using out_of_range_unchecked
    [of "\<lparr>parent = [0, 0, 0, 2], rank = [2, 0, 1, 0], sizes = [4, 1, 2, 1],
          n_elems = 4, components = 1\<rparr>" 7 7]
    out_of_range_unchecked
    [of "\<lparr>parent = [0, 0, 0, 2], rank = [2, 0, 1, 0], sizes = [4, 1, 2, 1],
          n_elems = 4, components = 1\<rparr>" 3 7]
  by (simp add: well_formed_def in_bounds_def)

text \<open>
  An out-of-bounds error with an unchanged partition is not what happens on the partition
  reached by
  \<^verbatim>\<open>DisjointSet(4); unite(0, 1); unite(2, 3); unite(0, 2)\<close>: \<^verbatim>\<open>find(7)\<close> ends in undefined
  behaviour, not in one of the errors the class throws, and \<^verbatim>\<open>unite(3, 7)\<close> has rewritten
  \<^verbatim>\<open>parent[3]\<close> from 2 to 0 when it reaches the index 7.
\<close>

theorem out_of_range_counterexample:
  "reachable \<lparr>parent = [0, 0, 0, 2], rank = [2, 0, 1, 0], sizes = [4, 1, 2, 1],
               n_elems = 4, components = 1\<rparr> \<and>
   \<not> in_bounds [0, 0, 0, 2 :: int] 7 \<and>
   find \<lparr>parent = [0, 0, 0, 2], rank = [2, 0, 1, 0], sizes = [4, 1, 2, 1],
          n_elems = 4, components = 1\<rparr> 7 =
     Some (\<lparr>parent = [0, 0, 0, 2], rank = [2, 0, 1, 0], sizes = [4, 1, 2, 1],
             n_elems = 4, components = 1\<rparr>, Inl UndefinedBehaviour) \<and>
   unite \<lparr>parent = [0, 0, 0, 2], rank = [2, 0, 1, 0], sizes = [4, 1, 2, 1],
           n_elems = 4, components = 1\<rparr> 3 7 =
     Some (\<lparr>parent = [0, 0, 0, 0], rank = [2, 0, 1, 0], sizes = [4, 1, 2, 1],
             n_elems = 4, components = 1\<rparr>, Inl UndefinedBehaviour) \<and>
   [0, 0, 0, 0] \<noteq> [0, 0, 0, 2 :: int]"
proof -
  let ?s0 = "\<lparr>parent = [0, 1, 2, 3], rank = [0, 0, 0, 0], sizes = [1, 1, 1, 1],
              n_elems = 4 :: 32 word, components = 4 :: 32 word\<rparr>"
  let ?s1 = "\<lparr>parent = [0, 0, 2, 3], rank = [1, 0, 0, 0], sizes = [2, 1, 1, 1],
              n_elems = 4 :: 32 word, components = 3 :: 32 word\<rparr>"
  let ?s2 = "\<lparr>parent = [0, 0, 2, 2], rank = [1, 0, 1, 0], sizes = [2, 1, 2, 1],
              n_elems = 4 :: 32 word, components = 2 :: 32 word\<rparr>"
  let ?s3 = "\<lparr>parent = [0, 0, 0, 2], rank = [2, 0, 1, 0], sizes = [4, 1, 2, 1],
              n_elems = 4 :: 32 word, components = 1 :: 32 word\<rparr>"
  have "DisjointSet_n 4 = Inr ?s0"
    by (simp add: DisjointSet_n_def upt_rec numeral_eq_Suc)
  then have r0: "reachable ?s0"
    by (intro reach_new[of 4]) simp_all
  have u1: "unite ?s0 0 1 = Some (?s1, Inr True)"
    by (simp add: unite_def find.simps in_bounds_def)
  have "public_step ?s0 ?s1"
    by (rule step_unite[OF _ _ u1]) (simp_all add: in_bounds_def)
  with r0 have r1: "reachable ?s1" by (rule reach_step)
  have u2: "unite ?s1 2 3 = Some (?s2, Inr True)"
    by (simp add: unite_def find.simps in_bounds_def)
  have "public_step ?s1 ?s2"
    by (rule step_unite[OF _ _ u2]) (simp_all add: in_bounds_def)
  with r1 have r2: "reachable ?s2" by (rule reach_step)
  have u3: "unite ?s2 0 2 = Some (?s3, Inr True)"
    by (simp add: unite_def find.simps in_bounds_def)
  have "public_step ?s2 ?s3"
    by (rule step_unite[OF _ _ u3]) (simp_all add: in_bounds_def)
  with r2 have r3: "reachable ?s3" by (rule reach_step)
  have f: "find ?s3 7 = Some (?s3, Inl UndefinedBehaviour)"
    by (simp add: find.simps in_bounds_def)
  have u: "unite ?s3 3 7 =
     Some (\<lparr>parent = [0, 0, 0, 0], rank = [2, 0, 1, 0], sizes = [4, 1, 2, 1],
             n_elems = 4, components = 1\<rparr>, Inl UndefinedBehaviour)"
    by (simp add: unite_def find.simps in_bounds_def)
  from r3 f u show ?thesis by (simp add: in_bounds_def)
qed

subsection \<open>The stored integers stay in the range of a C++ int\<close>

lemma reachable_values_bounded:
  assumes "reachable s" and xb: "in_bounds (parent s) x"
  shows "length (parent s) < 2 ^ 31"
    and "0 \<le> parent s ! nat x \<and> parent s ! nat x < int (length (parent s))"
    and "1 \<le> sizes s ! nat x \<and> sizes s ! nat x \<le> int (length (parent s))"
    and "0 \<le> rank s ! nat x \<and> rank s ! nat x < int (length (parent s))"
proof -
  note inv = reachable_invariants[OF assms(1)]
  from inv(2) have bd: "\<And>y. in_bounds (parent s) y \<Longrightarrow>
        1 \<le> sizes s ! nat y \<and> sizes s ! nat y \<le> int (length (parent s)) \<and> 0 \<le> rank s ! nat y"
    and rs: "\<And>r. r \<in> roots s \<Longrightarrow> rank s ! nat r < sizes s ! nat r"
    unfolding consistent_def by blast+
  from inv(2) show "length (parent s) < 2 ^ 31" by (simp add: consistent_def)
  from well_formedD(3)[OF inv(1) xb]
  show "0 \<le> parent s ! nat x \<and> parent s ! nat x < int (length (parent s))"
    by (simp add: in_bounds_def)
  from bd[OF xb]
  show "1 \<le> sizes s ! nat x \<and> sizes s ! nat x \<le> int (length (parent s))" by simp
  from root_of_exists[OF inv(1) xb] obtain r where r: "root_of (parent s) x r" by blast
  from root_of_root[OF r] have rr: "r \<in> roots s" and rb: "in_bounds (parent s) r"
    by (simp_all add: roots_def)
  have "rank s ! nat x \<le> rank s ! nat r"
    using rank_below_root[OF inv(1) r] by (cases "x = r") simp_all
  also from rs[OF rr] have "\<dots> < sizes s ! nat r" .
  also from bd[OF rb] have "\<dots> \<le> int (length (parent s))" by simp
  finally have "rank s ! nat x < int (length (parent s))" .
  with bd[OF xb] show "0 \<le> rank s ! nat x \<and> rank s ! nat x < int (length (parent s))" by simp
qed

end
